theory Spec2Isabelle
  imports Main "HOL-Library.Word" "HOL-Library.Multiset"
begin

section \<open>Data model of the GHB history helper (ghb_history.hh)\<close>

text \<open>
  Machine integers are words of the width the source declares: \<open>Addr\<close> and
  \<open>uint64_t\<close> are 64-bit words, \<open>int64_t\<close> deltas are 64-bit words read with
  \<open>sint\<close>, \<open>unsigned\<close> configuration values and \<open>uint32_t\<close> counters are 32-bit
  words, and \<open>int32_t\<close> slot indices are 32-bit words read with \<open>sint\<close>
  (so \<open>-1\<close> is the word \<open>0xFFFFFFFF\<close>). The differences and sums of
  addresses that the source computes in \<open>int64_t\<close> are the two's-complement
  operations of 64-bit words.
\<close>

type_synonym Addr = "64 word"
type_synonym uint64 = "64 word"
type_synonym int64 = "64 word"
type_synonym uint32 = "32 word"
type_synonym int32 = "32 word"

datatype CorrelationKey = PC | Page

record AccessInfo =
  acc_addr :: Addr
  acc_pc :: "Addr option"

record LinkInfo =
  prev :: int32
  prevSeq :: uint64
  keyValue :: uint64
  keyValid :: bool

text \<open>\<open>LinkInfo{}\<close>: the default member initialisers of the struct.\<close>

definition LinkInfo_default :: LinkInfo where
  "LinkInfo_default = \<lparr> prev = - 1, prevSeq = 0, keyValue = 0, keyValid = False \<rparr>"

text \<open>
  \<open>links\<close> is a \<open>std::array\<close> of \<open>NumCorrelationKeys = 2\<close> links indexed by the
  key kind; the model indexes it by the enumeration itself.
\<close>

record GHBEntry =
  addr :: Addr
  links :: "CorrelationKey \<Rightarrow> LinkInfo"
  seq :: uint64

definition GHBEntry_default :: GHBEntry where
  "GHBEntry_default = \<lparr> addr = 0, links = (\<lambda>_. LinkInfo_default), seq = 0 \<rparr>"

text \<open>
  \<open>PatternEntry::counts\<close> is an unordered map that \<open>findPatternMatch\<close> iterates;
  it is an association list with one pair per key whose order stands for the
  container's (unspecified) iteration order.
\<close>

record PatternEntry =
  counts :: "(int64 \<times> uint32) list"
  total_pe :: uint32

definition PatternEntry_default :: PatternEntry where
  "PatternEntry_default = \<lparr> counts = [], total_pe = 0 \<rparr>"

record GHBHistory =
  historySize :: uint32
  patternLength :: uint32
  degree :: uint32
  usePC :: bool
  pageBytes :: uint32
  confidenceThreshold :: uint32
  history :: "GHBEntry list"
  lastIndex :: "CorrelationKey \<Rightarrow> (uint64 \<rightharpoonup> int32)"
  head :: int32
  filled :: bool
  sequenceCounter :: uint64
  patternTable :: "(int64 \<times> int64) \<rightharpoonup> PatternEntry"

section \<open>Construction and reset\<close>

definition GHBHistory_ctor ::
  "uint32 \<Rightarrow> uint32 \<Rightarrow> uint32 \<Rightarrow> bool \<Rightarrow> uint32 \<Rightarrow> uint32 \<Rightarrow> GHBHistory" where
  "GHBHistory_ctor history_size pattern_length degree0 use_pc page_bytes confidence_threshold =
     \<lparr> historySize = max 1 history_size,
       patternLength = max 1 pattern_length,
       degree = max 1 degree0,
       usePC = use_pc,
       pageBytes = max 1 page_bytes,
       confidenceThreshold = min 100 confidence_threshold,
       history = replicate (unat (max 1 history_size)) GHBEntry_default,
       lastIndex = (\<lambda>_. Map.empty),
       head = 0,
       filled = False,
       sequenceCounter = 1,
       patternTable = Map.empty \<rparr>"

definition empty_ghb :: "GHBHistory \<Rightarrow> bool" where
  "empty_ghb s \<longleftrightarrow> historySize s = 0"

definition reset :: "GHBHistory \<Rightarrow> GHBHistory" where
  "reset s =
     s\<lparr> history := map (\<lambda>entry. entry\<lparr> addr := 0, seq := 0, links := (\<lambda>_. LinkInfo_default) \<rparr>)
                       (history s),
        lastIndex := (\<lambda>_. Map.empty),
        head := 0,
        filled := False,
        sequenceCounter := 1,
        patternTable := Map.empty \<rparr>"

section \<open>Checked access to the history vector\<close>

text \<open>
  \<open>history[i]\<close> with an \<open>int32_t\<close> index converts the index to \<open>size_t\<close>; a
  negative index becomes a value beyond any vector size. An access outside the
  vector is undefined behaviour in the source; the model returns \<open>None\<close> there,
  and every operation that performs such an access returns \<open>None\<close>.
\<close>

definition slot_ok :: "GHBEntry list \<Rightarrow> int32 \<Rightarrow> bool" where
  "slot_ok h i \<longleftrightarrow> 0 \<le> sint i \<and> unat i < length h"

definition entryAt :: "GHBEntry list \<Rightarrow> int32 \<Rightarrow> GHBEntry option" where
  "entryAt h i = (if slot_ok h i then Some (h ! unat i) else None)"

definition computePage :: "GHBHistory \<Rightarrow> Addr \<Rightarrow> uint64 option" where
  \<comment> \<open>\<open>addr / pageBytes\<close>; a zero divisor is undefined behaviour, \<open>None\<close> here.\<close>
  "computePage s a = (if pageBytes s = 0 then None else Some (a div ucast (pageBytes s)))"

section \<open>Insertion and the correlation index\<close>

definition removeLink ::
  "int32 \<Rightarrow> CorrelationKey \<Rightarrow> GHBEntry \<times> (CorrelationKey \<Rightarrow> (uint64 \<rightharpoonup> int32))
     \<Rightarrow> GHBEntry \<times> (CorrelationKey \<Rightarrow> (uint64 \<rightharpoonup> int32))" where
  \<comment> \<open>one iteration of the loop of \<open>removeIndexMappings\<close>\<close>
  "removeLink slot i p =
     (case p of (victim, idx) \<Rightarrow>
        if \<not> keyValid (links victim i) then (victim, idx)
        else
          (victim\<lparr> links := (links victim)(i := (links victim i)\<lparr> keyValid := False \<rparr>) \<rparr>,
           if idx i (keyValue (links victim i)) = Some slot
           then idx(i := (idx i)(keyValue (links victim i) := None))
           else idx))"

definition removeIndexMappings :: "GHBHistory \<Rightarrow> int32 \<Rightarrow> GHBHistory option" where
  "removeIndexMappings s slot =
     (case entryAt (history s) slot of
        None \<Rightarrow> None
      | Some victim \<Rightarrow>
          (case removeLink slot Page (removeLink slot PC (victim, lastIndex s)) of
             (victim', idx') \<Rightarrow>
               Some (s\<lparr> history := (history s)[unat slot := victim'], lastIndex := idx' \<rparr>)))"

definition evictIndex :: "GHBHistory \<Rightarrow> int32 \<Rightarrow> GHBHistory option" where
  "evictIndex s slot = removeIndexMappings s slot"

text \<open>
  \<open>assignCorrelation\<close> receives a reference to \<open>history[slot]\<close>; the model
  reads and writes that slot of the state, so the read of
  \<open>history[it->second].seq\<close> sees the same vector the reference points into.
\<close>

definition assignCorrelation ::
  "GHBHistory \<Rightarrow> int32 \<Rightarrow> CorrelationKey \<Rightarrow> uint64 \<Rightarrow> GHBHistory option" where
  "assignCorrelation s slot key v =
     (case entryAt (history s) slot of
        None \<Rightarrow> None
      | Some entry \<Rightarrow>
          (let link0 = \<lparr> prev = - 1, prevSeq = 0, keyValue = v, keyValid = True \<rparr>;
               linkR = (case lastIndex s key v of
                          None \<Rightarrow> Some link0
                        | Some p \<Rightarrow>
                            (case entryAt (history s) p of
                               None \<Rightarrow> None
                             | Some pe \<Rightarrow> Some (link0\<lparr> prev := p, prevSeq := seq pe \<rparr>)))
           in case linkR of
                None \<Rightarrow> None
              | Some link \<Rightarrow>
                  Some (s\<lparr> history := (history s)[unat slot := entry\<lparr> links := (links entry)(key := link) \<rparr>],
                           lastIndex := (lastIndex s)(key := (lastIndex s key)(v \<mapsto> slot)) \<rparr>)))"

text \<open>
  \<open>insert\<close> returns the slot (or the sentinel \<open>-1\<close>) and the new state.
  \<open>(head + 1) % historySize\<close> is computed on unsigned 32-bit values, as the
  usual arithmetic conversions prescribe for \<open>int32_t\<close> with \<open>unsigned\<close>.
  The addition \<open>head + 1\<close> itself is done in \<open>int\<close> and is in range unless
  \<open>head\<close> is the largest \<open>int32_t\<close>, which needs a capacity above \<open>2^31 - 1\<close>;
  the model wraps there, and the theorems about \<open>insert\<close> returning assume a
  smaller capacity.
\<close>

definition insert_ghb :: "GHBHistory \<Rightarrow> AccessInfo \<Rightarrow> (int32 \<times> GHBHistory) option" where
  "insert_ghb s access =
     (if historySize s = 0 then Some (- 1, s)
      else
        case (if filled s then evictIndex s (head s) else Some s) of
          None \<Rightarrow> None
        | Some s1 \<Rightarrow>
            (let slot = head s1 in
             case entryAt (history s1) slot of
               None \<Rightarrow> None
             | Some entry \<Rightarrow>
                 (let s2 = s1\<lparr> history := (history s1)[unat slot :=
                                   entry\<lparr> addr := acc_addr access, seq := sequenceCounter s1 \<rparr>],
                               sequenceCounter := sequenceCounter s1 + 1 \<rparr>
                  in case (if usePC s2 \<and> acc_pc access \<noteq> None
                           then assignCorrelation s2 slot PC (the (acc_pc access))
                           else Some (s2\<lparr> history := (history s2)[unat slot :=
                                  (history s2 ! unat slot)\<lparr> links :=
                                     (links (history s2 ! unat slot))(PC := LinkInfo_default) \<rparr>] \<rparr>)) of
                       None \<Rightarrow> None
                     | Some s3 \<Rightarrow>
                         (case computePage s3 (acc_addr access) of
                            None \<Rightarrow> None
                          | Some page \<Rightarrow>
                              (case assignCorrelation s3 slot Page page of
                                 None \<Rightarrow> None
                               | Some s4 \<Rightarrow>
                                   (let head' = (head s4 + 1) mod historySize s4
                                    in Some (slot, s4\<lparr> head := head',
                                                       filled := (if head' = 0 then True else filled s4) \<rparr>)))))))"

section \<open>Pattern builder\<close>

function buildLoop ::
  "GHBHistory \<Rightarrow> CorrelationKey \<Rightarrow> int32 \<Rightarrow> int64 list \<Rightarrow> int64 list option" where
  "buildLoop s key current deltas =
     (if length deltas < unat (patternLength s) then
        (case entryAt (history s) current of
           None \<Rightarrow> None
         | Some entry \<Rightarrow>
             (let link = links entry key in
              if sint (prev link) < 0 then Some deltas
              else
                (case entryAt (history s) (prev link) of
                   None \<Rightarrow> None
                 | Some prev_entry \<Rightarrow>
                     if seq prev_entry \<noteq> prevSeq link then Some deltas
                     else buildLoop s key (prev link) (deltas @ [addr entry - addr prev_entry]))))
      else Some deltas)"
  by pat_completeness auto
termination
  by (relation "measure (\<lambda>(s, key, current, deltas). unat (patternLength s) - length deltas)") auto

declare buildLoop.simps [simp del]

definition buildPattern ::
  "GHBHistory \<Rightarrow> int32 \<Rightarrow> CorrelationKey \<Rightarrow> (bool \<times> int64 list) option" where
  "buildPattern s index key =
     (if sint index < 0 \<or> length (history s) \<le> unat index then Some (False, [])
      else case buildLoop s key index [] of
             None \<Rightarrow> None
           | Some deltas \<Rightarrow> Some (deltas \<noteq> [], deltas))"

section \<open>Pattern table and predictor\<close>

fun countsIncr :: "(int64 \<times> uint32) list \<Rightarrow> int64 \<Rightarrow> (int64 \<times> uint32) list" where
  \<comment> \<open>\<open>counts[d]++\<close>: a missing key is created with count 0 and then incremented;
      the container does not say where a new key comes in the iteration order,
      the model puts it last\<close>
  "countsIncr [] d = [(d, 1)]"
| "countsIncr ((d', n) # cs) d =
     (if d' = d then (d', n + 1) # cs else (d', n) # countsIncr cs d)"

definition learn ::
  "((int64 \<times> int64) \<rightharpoonup> PatternEntry) \<Rightarrow> int64 \<times> int64 \<Rightarrow> int64
     \<Rightarrow> ((int64 \<times> int64) \<rightharpoonup> PatternEntry)" where
  \<comment> \<open>the body of the loop of \<open>updatePatternTable\<close>\<close>
  "learn pt key d =
     (let entry = (case pt key of None \<Rightarrow> PatternEntry_default | Some e \<Rightarrow> e)
      in pt(key \<mapsto> entry\<lparr> counts := countsIncr (counts entry) d, total_pe := total_pe entry + 1 \<rparr>))"

function updateLoop ::
  "((int64 \<times> int64) \<rightharpoonup> PatternEntry) \<Rightarrow> int64 list \<Rightarrow> nat
     \<Rightarrow> ((int64 \<times> int64) \<rightharpoonup> PatternEntry)" where
  "updateLoop pt chronological i =
     (if i + 2 < length chronological
      then updateLoop (learn pt (chronological ! i, chronological ! (i + 1)) (chronological ! (i + 2)))
             chronological (i + 1)
      else pt)"
  by pat_completeness auto
termination
  by (relation "measure (\<lambda>(pt, chronological, i). length chronological - i)") auto

declare updateLoop.simps [simp del]

definition updatePatternTable :: "GHBHistory \<Rightarrow> int64 list \<Rightarrow> GHBHistory" where
  "updatePatternTable s chronological =
     (if length chronological < 3 then s
      else s\<lparr> patternTable := updateLoop (patternTable s) chronological 0 \<rparr>)"

text \<open>
  \<open>std::sort\<close> is not stable, so the order it leaves among candidates of equal
  count is not determined by the source. The model takes the sorting routine
  as a parameter \<open>srt\<close>; \<open>sort_contract\<close> is what the standard guarantees for the
  comparator \<open>a.second > b.second\<close>: a permutation in which no later element
  has a greater count than an earlier one.
\<close>

definition sort_contract ::
  "((int64 \<times> uint32) list \<Rightarrow> (int64 \<times> uint32) list) \<Rightarrow> bool" where
  "sort_contract srt \<longleftrightarrow>
     (\<forall>xs. mset (srt xs) = mset xs \<and> sorted_wrt (\<lambda>a b. \<not> snd a < snd b) (srt xs))"

definition findPatternMatch ::
  "((int64 \<times> uint32) list \<Rightarrow> (int64 \<times> uint32) list) \<Rightarrow> GHBHistory \<Rightarrow> int64 list
     \<Rightarrow> bool \<times> int64 list" where
  "findPatternMatch srt s chronological =
     (if length chronological < 2 then (False, [])
      else
        (let key = (chronological ! (length chronological - 2), last chronological)
         in case patternTable s key of
              None \<Rightarrow> (False, [])
            | Some entry \<Rightarrow>
                if total_pe entry = 0 then (False, [])
                else
                  (let candidates = srt (counts entry);
                       predicted = (if candidates \<noteq> [] then [fst (candidates ! 0)] else [])
                   in (predicted \<noteq> [], predicted))))"

definition fallbackPattern :: "int64 list \<Rightarrow> int64 list" where
  "fallbackPattern chronological =
     (if chronological = [] then []
      else (let delta = last chronological in if delta \<noteq> 0 then [delta] else []))"

section \<open>Reachable states and their invariants\<close>

text \<open>
  \<open>reach s0 n s\<close>: the state \<open>s\<close> is reached from \<open>s0\<close> by the public
  mutating operations (\<open>insert\<close>, \<open>updatePatternTable\<close>, \<open>reset\<close>), with
  \<open>n\<close> insertions since \<open>s0\<close> or the last reset. The \<open>const\<close> member
  functions leave the state as it is.
\<close>

inductive reach :: "GHBHistory \<Rightarrow> nat \<Rightarrow> GHBHistory \<Rightarrow> bool" for s0 :: GHBHistory where
  reach_start: "reach s0 0 s0"
| reach_reset: "reach s0 n s \<Longrightarrow> reach s0 0 (reset s)"
| reach_insert: "reach s0 n s \<Longrightarrow> insert_ghb s access = Some (slot, s') \<Longrightarrow> reach s0 (Suc n) s'"
| reach_update: "reach s0 n s \<Longrightarrow> reach s0 n (updatePatternTable s chronological)"

definition cfg_inv :: "GHBHistory \<Rightarrow> bool" where
  "cfg_inv s \<longleftrightarrow>
     length (history s) = unat (historySize s) \<and> historySize s \<noteq> 0 \<and> pageBytes s \<noteq> 0
     \<and> patternLength s \<noteq> 0 \<and> unat (head s) < unat (historySize s)
     \<and> (\<not> filled s \<longrightarrow>
          (\<forall>i. unat (head s) \<le> i \<and> i < length (history s) \<longrightarrow> history s ! i = GHBEntry_default))"

definition index_inv :: "GHBHistory \<Rightarrow> bool" where
  "index_inv s \<longleftrightarrow>
     (\<forall>k v p. lastIndex s k v = Some p \<longrightarrow>
        slot_ok (history s) p
        \<and> keyValid (links (history s ! unat p) k)
        \<and> keyValue (links (history s ! unat p) k) = v)"

definition link_inv :: "GHBHistory \<Rightarrow> bool" where
  "link_inv s \<longleftrightarrow>
     (\<forall>c k. c < length (history s) \<longrightarrow>
        prev (links (history s ! c) k) = - 1
        \<or> (slot_ok (history s) (prev (links (history s ! c) k))
            \<and> unat (prev (links (history s ! c) k)) \<noteq> c))"

definition table_inv :: "GHBHistory \<Rightarrow> bool" where
  "table_inv s \<longleftrightarrow> (\<forall>key e. patternTable s key = Some e \<longrightarrow> counts e \<noteq> [])"

definition inv :: "GHBHistory \<Rightarrow> bool" where
  "inv s \<longleftrightarrow> cfg_inv s \<and> index_inv s \<and> link_inv s \<and> table_inv s"

definition seq_inv :: "nat \<Rightarrow> GHBHistory \<Rightarrow> bool" where
  "seq_inv n s \<longleftrightarrow>
     unat (sequenceCounter s) = n + 1
     \<and> (\<forall>i. i < length (history s) \<longrightarrow> unat (seq (history s ! i)) \<le> n)
     \<and> (\<forall>i j. i < length (history s) \<and> j < length (history s) \<and> i \<noteq> j
            \<and> seq (history s ! i) \<noteq> 0 \<longrightarrow> seq (history s ! i) \<noteq> seq (history s ! j))
     \<and> (\<forall>c k. c < length (history s) \<and> 0 \<le> sint (prev (links (history s ! c) k)) \<longrightarrow>
            prevSeq (links (history s ! c) k) < seq (history s ! c)
            \<and> (seq (history s ! unat (prev (links (history s ! c) k)))
                  = prevSeq (links (history s ! c) k)
                \<or> seq (history s ! c) < seq (history s ! unat (prev (links (history s ! c) k)))))"

text \<open>
  The state an insertion produces, written out: the index after the eviction
  of the slot, the link wired for a key value, and the entry written.
\<close>

definition unmapSlot ::
  "(CorrelationKey \<Rightarrow> (uint64 \<rightharpoonup> int32)) \<Rightarrow> int32 \<Rightarrow> (CorrelationKey \<Rightarrow> (uint64 \<rightharpoonup> int32))" where
  "unmapSlot idx slot = (\<lambda>k v. if idx k v = Some slot then None else idx k v)"

definition wiredLink ::
  "(CorrelationKey \<Rightarrow> (uint64 \<rightharpoonup> int32)) \<Rightarrow> GHBEntry list \<Rightarrow> CorrelationKey \<Rightarrow> uint64 \<Rightarrow> LinkInfo" where
  "wiredLink idx h k v =
     (case idx k v of
        None \<Rightarrow> \<lparr> prev = - 1, prevSeq = 0, keyValue = v, keyValid = True \<rparr>
      | Some q \<Rightarrow> \<lparr> prev = q, prevSeq = seq (h ! unat q), keyValue = v, keyValid = True \<rparr>)"

definition insertedLinks :: "GHBHistory \<Rightarrow> AccessInfo \<Rightarrow> CorrelationKey \<Rightarrow> LinkInfo" where
  "insertedLinks s access k =
     (case k of
        PC \<Rightarrow> (if usePC s \<and> acc_pc access \<noteq> None
               then wiredLink (unmapSlot (lastIndex s) (head s)) (history s) PC (the (acc_pc access))
               else LinkInfo_default)
      | Page \<Rightarrow> wiredLink (unmapSlot (lastIndex s) (head s)) (history s) Page
                  (acc_addr access div ucast (pageBytes s)))"

definition insertedIndex ::
  "GHBHistory \<Rightarrow> AccessInfo \<Rightarrow> CorrelationKey \<Rightarrow> (uint64 \<rightharpoonup> int32)" where
  "insertedIndex s access k =
     (case k of
        PC \<Rightarrow> (if usePC s \<and> acc_pc access \<noteq> None
               then (unmapSlot (lastIndex s) (head s) PC)(the (acc_pc access) \<mapsto> head s)
               else unmapSlot (lastIndex s) (head s) PC)
      | Page \<Rightarrow> (unmapSlot (lastIndex s) (head s) Page)
                  (acc_addr access div ucast (pageBytes s) \<mapsto> head s))"

definition inserted :: "GHBHistory \<Rightarrow> AccessInfo \<Rightarrow> GHBHistory" where
  "inserted s access =
     s\<lparr> history := (history s)[unat (head s) :=
           \<lparr> addr = acc_addr access, links = insertedLinks s access, seq = sequenceCounter s \<rparr>],
        lastIndex := insertedIndex s access,
        head := (head s + 1) mod historySize s,
        filled := (if (head s + 1) mod historySize s = 0 then True else filled s),
        sequenceCounter := sequenceCounter s + 1 \<rparr>"

section \<open>The pattern builder's walk, in the words of the specification\<close>

text \<open>
  A link can be followed when it has a predecessor and the predecessor slot
  still holds the sequence number recorded when the link was made.
\<close>

definition linkFollowable :: "GHBHistory \<Rightarrow> CorrelationKey \<Rightarrow> int32 \<Rightarrow> bool" where
  "linkFollowable s key c \<longleftrightarrow>
     0 \<le> sint (prev (links (history s ! unat c) key))
     \<and> seq (history s ! unat (prev (links (history s ! unat c) key)))
           = prevSeq (links (history s ! unat c) key)"

primrec chainSlot :: "GHBHistory \<Rightarrow> CorrelationKey \<Rightarrow> int32 \<Rightarrow> nat \<Rightarrow> int32" where
  "chainSlot s key index 0 = index"
| "chainSlot s key index (Suc i) = prev (links (history s ! unat (chainSlot s key index i)) key)"

primrec chainDeltas :: "GHBHistory \<Rightarrow> CorrelationKey \<Rightarrow> nat \<Rightarrow> int32 \<Rightarrow> int64 list" where
  "chainDeltas s key 0 c = []"
| "chainDeltas s key (Suc m) c =
     (if linkFollowable s key c
      then (addr (history s ! unat c) - addr (history s ! unat (prev (links (history s ! unat c) key))))
             # chainDeltas s key m (prev (links (history s ! unat c) key))
      else [])"

section \<open>What the pattern table holds\<close>

definition countOf :: "((int64 \<times> int64) \<rightharpoonup> PatternEntry) \<Rightarrow> int64 \<times> int64 \<Rightarrow> int64 \<Rightarrow> uint32" where
  "countOf pt key d =
     (case pt key of
        None \<Rightarrow> 0
      | Some e \<Rightarrow> (case map_of (counts e) d of None \<Rightarrow> 0 | Some c \<Rightarrow> c))"

definition totalOf :: "((int64 \<times> int64) \<rightharpoonup> PatternEntry) \<Rightarrow> int64 \<times> int64 \<Rightarrow> uint32" where
  "totalOf pt key = (case pt key of None \<Rightarrow> 0 | Some e \<Rightarrow> total_pe e)"

text \<open>
  The number of consecutive triples \<open>(d[i], d[i+1], d[i+2])\<close> of a list, from
  position \<open>i0\<close> on, with a given key \<open>(d[i], d[i+1])\<close> and next delta \<open>d[i+2]\<close>,
  and the number of those with a given key.
\<close>

definition tripleCount :: "int64 list \<Rightarrow> nat \<Rightarrow> int64 \<times> int64 \<Rightarrow> int64 \<Rightarrow> nat" where
  "tripleCount ch i0 key d =
     length (filter (\<lambda>i. (ch ! i, ch ! (i + 1)) = key \<and> ch ! (i + 2) = d) [i0 ..< length ch - 2])"

definition keyCount :: "int64 list \<Rightarrow> nat \<Rightarrow> int64 \<times> int64 \<Rightarrow> nat" where
  "keyCount ch i0 key =
     length (filter (\<lambda>i. (ch ! i, ch ! (i + 1)) = key) [i0 ..< length ch - 2])"

section \<open>Address generation (ghb.cc)\<close>

text \<open>
  \<open>PrefetchInfo\<close>, \<open>blockAddress\<close> and \<open>samePage\<close> belong to the surrounding
  simulator and are not part of these sources: the access is a record of what
  \<open>getAddr\<close>, \<open>hasPC\<close> and \<open>getPC\<close> return, and \<open>blockAddress\<close> and \<open>samePage\<close>
  are parameters of \<open>calculatePrefetch\<close>. An \<open>AddrPriority\<close> is a pair of an
  address and an \<open>int32_t\<close> priority.
\<close>

record PrefetchInfo =
  pfi_addr :: Addr
  pfi_pc :: "Addr option"

record GHBPrefetcher =
  pf_historySize :: uint32
  pf_patternLength :: uint32
  pf_degree :: uint32
  pf_usePC :: bool
  pf_confidenceThreshold :: uint32
  historyHelper :: GHBHistory

fun emitLoop ::
  "(Addr \<Rightarrow> Addr \<Rightarrow> bool) \<Rightarrow> Addr \<Rightarrow> Addr \<Rightarrow> int64 list \<Rightarrow> (Addr \<times> int32) list
     \<Rightarrow> (Addr \<times> int32) list" where
  \<comment> \<open>the loop over \<open>predicted\<close> at the end of \<open>calculatePrefetch\<close>\<close>
  "emitLoop samePage block_addr next_addr [] addresses = addresses"
| "emitLoop samePage block_addr next_addr (delta # predicted) addresses =
     (if delta = 0 then emitLoop samePage block_addr next_addr predicted addresses
      else
        (let next_addr' = next_addr + delta in
         if \<not> samePage block_addr next_addr'
         then emitLoop samePage block_addr next_addr' predicted addresses
         else emitLoop samePage block_addr next_addr' predicted (addresses @ [(next_addr', 0)])))"

definition calculatePrefetch ::
  "(Addr \<Rightarrow> Addr) \<Rightarrow> (Addr \<Rightarrow> Addr \<Rightarrow> bool)
     \<Rightarrow> ((int64 \<times> uint32) list \<Rightarrow> (int64 \<times> uint32) list)
     \<Rightarrow> GHBPrefetcher \<Rightarrow> PrefetchInfo \<Rightarrow> (Addr \<times> int32) list
     \<Rightarrow> (GHBPrefetcher \<times> (Addr \<times> int32) list) option" where
  "calculatePrefetch blockAddress samePage srt pf pfi addresses =
     (if empty_ghb (historyHelper pf) then Some (pf, addresses)
      else
        (let block_addr = blockAddress (pfi_addr pfi);
             access = \<lparr> acc_addr = block_addr,
                        acc_pc = (if pf_usePC pf \<and> pfi_pc pfi \<noteq> None then pfi_pc pfi else None) \<rparr>
         in case insert_ghb (historyHelper pf) access of
              None \<Rightarrow> None
            | Some (idx, h1) \<Rightarrow>
                if sint idx < 0 then Some (pf\<lparr> historyHelper := h1 \<rparr>, addresses)
                else
                  (case buildPattern h1 idx PC of
                     None \<Rightarrow> None
                   | Some (hasPattern, deltas) \<Rightarrow>
                       (case (if \<not> hasPattern then buildPattern h1 idx Page
                              else Some (hasPattern, deltas)) of
                          None \<Rightarrow> None
                        | Some (hasPattern', deltas') \<Rightarrow>
                            if \<not> hasPattern' then Some (pf\<lparr> historyHelper := h1 \<rparr>, addresses)
                            else
                              (let chronological = rev deltas';
                                   h2 = updatePatternTable h1 chronological;
                                   found = findPatternMatch srt h2 chronological;
                                   predicted = (if \<not> fst found then fallbackPattern chronological
                                                else snd found)
                               in if predicted = [] then Some (pf\<lparr> historyHelper := h2 \<rparr>, addresses)
                                  else Some (pf\<lparr> historyHelper := h2 \<rparr>,
                                             emitLoop samePage block_addr block_addr predicted addresses))))))"

text \<open>
  The candidate addresses in the words of the specification: starting from
  the block address, each non-zero predicted delta in order is added to the
  running address and gives one candidate.
\<close>

fun candidates :: "Addr \<Rightarrow> int64 list \<Rightarrow> Addr list" where
  "candidates a [] = []"
| "candidates a (d # ds) = (if d = 0 then candidates a ds else (a + d) # candidates (a + d) ds)"

section \<open>A worked example: the sequential-stride scenario\<close>

definition ex_fresh :: GHBHistory where
  "ex_fresh = GHBHistory_ctor 16 4 2 True 64 50"

definition ex_access :: "Addr \<Rightarrow> AccessInfo" where
  "ex_access a = \<lparr> acc_addr = a, acc_pc = Some 0x100 \<rparr>"

definition ex_stride :: "GHBHistory \<Rightarrow> GHBHistory" where
  "ex_stride s = inserted (inserted (inserted s (ex_access 0)) (ex_access 0x40)) (ex_access 0x80)"

text \<open>The same accesses on a buffer of two slots, so that the third wraps around.\<close>

definition ex_small :: GHBHistory where
  "ex_small = GHBHistory_ctor 2 4 2 True 64 50"

text \<open>
  The states of the two-slot buffer after each of the three insertions, as
  \<open>insert\<close> returns them.
\<close>

definition ex_w1 :: GHBHistory where
  "ex_w1 = snd (the (insert_ghb ex_small (ex_access 0)))"

definition ex_w2 :: GHBHistory where
  "ex_w2 = snd (the (insert_ghb ex_w1 (ex_access 0x40)))"

definition ex_w3 :: GHBHistory where
  "ex_w3 = snd (the (insert_ghb ex_w2 (ex_access 0x80)))"

section \<open>Worked examples for the pattern table\<close>

text \<open>A sorting routine that meets \<open>sort_contract\<close>: descending by count.\<close>

definition sort_desc :: "(int64 \<times> uint32) list \<Rightarrow> (int64 \<times> uint32) list" where
  "sort_desc xs = rev (sort_key snd xs)"

definition ex_trained :: GHBHistory where
  "ex_trained = updatePatternTable ex_fresh [64, 64, 64, 32, 32, 32]"

text \<open>
  A table whose only count has reached the largest 32-bit value, as after
  \<open>2^32 - 1\<close> trainings with the deltas \<open>[1, 1, 1]\<close>.
\<close>

definition ex_saturated :: GHBHistory where
  "ex_saturated =
     ex_fresh\<lparr> patternTable :=
        [(1, 1) \<mapsto> \<lparr> counts = [(1, 0xFFFFFFFF)], total_pe = 0xFFFFFFFF \<rparr>] \<rparr>"

section \<open>A worked example for address generation\<close>

text \<open>
  A predictor with 4096-byte pages that has seen the accesses 0 and 0x40 of
  one instruction, inside a prefetcher; block addresses of 64-byte blocks and
  the same-page test for 4096-byte pages stand for the simulator's
  \<open>blockAddress\<close> and \<open>samePage\<close>.
\<close>

definition ex_page4k :: GHBHistory where
  "ex_page4k =
     inserted (inserted (GHBHistory_ctor 16 4 2 True 4096 50) (ex_access 0)) (ex_access 0x40)"

definition ex_pf :: GHBPrefetcher where
  "ex_pf = \<lparr> pf_historySize = 16, pf_patternLength = 4, pf_degree = 2, pf_usePC = True,
             pf_confidenceThreshold = 50, historyHelper = ex_page4k \<rparr>"

definition ex_blockAddress :: "Addr \<Rightarrow> Addr" where
  "ex_blockAddress a = a - a mod 64"

definition ex_samePage :: "Addr \<Rightarrow> Addr \<Rightarrow> bool" where
  "ex_samePage a b \<longleftrightarrow> a div 4096 = b div 4096"

section \<open>Fallback prediction\<close>

text \<open>
  C8. For every non-empty chronological delta list, \<open>fallbackPattern\<close> returns
  exactly one predicted delta, the last one of the list, when that delta is
  non-zero, and no prediction when it is zero; the chronological deltas
  \<open>[16, 8, 4]\<close> give the prediction \<open>4\<close>.
\<close>

theorem fallbackPattern_last:
  "chronological \<noteq> [] \<Longrightarrow>
     fallbackPattern chronological =
       (if last chronological \<noteq> 0 then [last chronological] else [])
     \<and> fallbackPattern [16, 8, 4] = [4]"
  by (simp add: fallbackPattern_def)

theorem fallbackPattern_last_witness:
  "[16, 8, 4 :: int64] \<noteq> [] \<and> fallbackPattern [16, 8, 4] = [4]
   \<and> fallbackPattern [16, 8, 0] = []"
  using fallbackPattern_last [of "[16, 8, 4]"] fallbackPattern_last [of "[16, 8, 0]"]
  by simp

section \<open>What an insertion does\<close>

lemma entryAt_Some: "slot_ok h i \<Longrightarrow> entryAt h i = Some (h ! unat i)"
  by (simp add: entryAt_def)

lemma slot_ok_upd [simp]: "slot_ok (h[i := e]) p = slot_ok h p"
  by (simp add: slot_ok_def)

lemma removeLink_snd:
  assumes "\<forall>v. idx k v = Some slot \<longrightarrow> keyValid (links victim k) \<and> keyValue (links victim k) = v"
  shows "snd (removeLink slot k (victim, idx)) = idx(k := unmapSlot idx slot k)"
proof (cases "keyValid (links victim k) \<and> idx k (keyValue (links victim k)) = Some slot")
  case True
  have "(idx k)(keyValue (links victim k) := None) = unmapSlot idx slot k"
  proof
    fix v
    show "((idx k)(keyValue (links victim k) := None)) v = unmapSlot idx slot k v"
      using assms True by (cases "idx k v = Some slot") (auto simp: unmapSlot_def)
  qed
  then show ?thesis using True by (simp add: removeLink_def)
next
  case False
  have "unmapSlot idx slot k = idx k"
  proof
    fix v
    show "unmapSlot idx slot k v = idx k v"
      using assms False by (cases "idx k v = Some slot") (auto simp: unmapSlot_def)
  qed
  then show ?thesis using False by (auto simp add: removeLink_def)
qed

lemma removeLink_fst_other:
  "k' \<noteq> k \<Longrightarrow> links (fst (removeLink slot k (victim, idx))) k' = links victim k'"
  by (simp add: removeLink_def)

lemma unmapSlot_both: "(idx(PC := unmapSlot idx slot PC))(Page := unmapSlot idx slot Page) = unmapSlot idx slot"
proof
  fix k show "((idx(PC := unmapSlot idx slot PC))(Page := unmapSlot idx slot Page)) k = unmapSlot idx slot k"
    by (cases k) simp_all
qed

lemma removeIndexMappings_pair:
  assumes r1: "removeLink slot PC (history s ! unat slot, lastIndex s) = (v1, i1)"
   and r2: "removeLink slot Page (v1, i1) = (v2, i2)" and ok: "slot_ok (history s) slot"
  shows "removeIndexMappings s slot = Some (s\<lparr> history := (history s)[unat slot := v2], lastIndex := i2 \<rparr>)"
  by (simp add: removeIndexMappings_def entryAt_Some [OF ok] r1 r2)

lemma evict_char:
  assumes "index_inv s" "slot_ok (history s) slot"
  shows "\<exists>v'. removeIndexMappings s slot =
           Some (s\<lparr> history := (history s)[unat slot := v'], lastIndex := unmapSlot (lastIndex s) slot \<rparr>)"
proof -
  let ?victim = "history s ! unat slot"
  obtain v1 i1 where r1: "removeLink slot PC (?victim, lastIndex s) = (v1, i1)"
    by (cases "removeLink slot PC (?victim, lastIndex s)")
  obtain v2 i2 where r2: "removeLink slot Page (v1, i1) = (v2, i2)"
    by (cases "removeLink slot Page (v1, i1)")
  have inv: "\<forall>v. lastIndex s k v = Some slot \<longrightarrow>
      keyValid (links ?victim k) \<and> keyValue (links ?victim k) = v" for k
    using assms(1) by (simp add: index_inv_def)
  have "snd (removeLink slot PC (?victim, lastIndex s)) = (lastIndex s)(PC := unmapSlot (lastIndex s) slot PC)"
    by (rule removeLink_snd [OF inv])
  then have i1: "i1 = (lastIndex s)(PC := unmapSlot (lastIndex s) slot PC)"
    by (simp add: r1)
  have "links (fst (removeLink slot PC (?victim, lastIndex s))) Page = links ?victim Page"
    by (rule removeLink_fst_other) simp
  then have l1: "links v1 Page = links ?victim Page"
    by (simp add: r1)
  have "\<forall>v. i1 Page v = Some slot \<longrightarrow> keyValid (links v1 Page) \<and> keyValue (links v1 Page) = v"
    using inv [of Page] by (simp add: i1 l1)
  then have "snd (removeLink slot Page (v1, i1)) = i1(Page := unmapSlot i1 slot Page)"
    by (rule removeLink_snd)
  then have i2: "i2 = i1(Page := unmapSlot i1 slot Page)"
    by (simp add: r2)
  have "unmapSlot i1 slot Page = unmapSlot (lastIndex s) slot Page"
    by (auto simp add: i1 unmapSlot_def fun_eq_iff)
  then have "i2 = unmapSlot (lastIndex s) slot"
    unfolding i2 i1 by (simp only: unmapSlot_both)
  then show ?thesis
    using removeIndexMappings_pair [OF r1 r2 assms(2)] by blast
qed


lemma assign_char:
  assumes ok: "slot_ok (history s) slot"
    and idx: "\<And>p. lastIndex s key v = Some p \<Longrightarrow> slot_ok (history s) p"
  shows "assignCorrelation s slot key v =
           Some (s\<lparr> history := (history s)[unat slot :=
                        (history s ! unat slot)\<lparr> links := (links (history s ! unat slot))
                            (key := wiredLink (lastIndex s) (history s) key v) \<rparr>],
                    lastIndex := (lastIndex s)(key := (lastIndex s key)(v \<mapsto> slot)) \<rparr>)"
proof (cases "lastIndex s key v")
  case None
  then show ?thesis
    by (simp add: assignCorrelation_def entryAt_Some [OF ok] wiredLink_def)
next
  case (Some p)
  then show ?thesis
    by (simp add: assignCorrelation_def entryAt_Some [OF ok] entryAt_Some [OF idx [OF Some]] wiredLink_def)
qed

lemma wiredLink_cong:
  assumes "\<And>q. idx k v = Some q \<Longrightarrow> seq (h' ! unat q) = seq (h ! unat q)"
  shows "wiredLink idx h' k v = wiredLink idx h k v"
  using assms by (simp add: wiredLink_def split: option.splits)

lemma unmapSlot_neq: "unmapSlot idx slot k v = Some q \<Longrightarrow> q \<noteq> slot \<and> idx k v = Some q"
  by (simp add: unmapSlot_def split: if_splits)

lemma unmapSlot_idem [simp]: "unmapSlot (unmapSlot idx slot) slot = unmapSlot idx slot"
  by (auto simp: unmapSlot_def fun_eq_iff)


lemma index_invD:
  "index_inv s \<Longrightarrow> lastIndex s k v = Some p \<Longrightarrow>
     slot_ok (history s) p \<and> keyValid (links (history s ! unat p) k)
     \<and> keyValue (links (history s ! unat p) k) = v"
  unfolding index_inv_def by blast

lemma fresh_unmap:
  assumes ii: "index_inv s" and fresh: "history s ! unat slot = GHBEntry_default"
  shows "unmapSlot (lastIndex s) slot = lastIndex s"
proof (rule ext, rule ext)
  fix k v
  have "lastIndex s k v \<noteq> Some slot"
  proof
    assume "lastIndex s k v = Some slot"
    then have "keyValid (links (history s ! unat slot) k)"
      using ii by (simp add: index_inv_def)
    then show False by (simp add: fresh GHBEntry_default_def LinkInfo_default_def)
  qed
  then show "unmapSlot (lastIndex s) slot k v = lastIndex s k v"
    by (simp add: unmapSlot_def)
qed

lemma evict_step:
  assumes "inv s" and ok: "slot_ok (history s) (head s)"
  shows "\<exists>v'. (if filled s then evictIndex s (head s) else Some s) =
           Some (s\<lparr> history := (history s)[unat (head s) := v'],
                    lastIndex := unmapSlot (lastIndex s) (head s) \<rparr>)"
proof (cases "filled s")
  case True
  then show ?thesis
    using evict_char [of s "head s"] assms by (simp add: inv_def evictIndex_def)
next
  case False
  have ci: "cfg_inv s" and ii: "index_inv s" using assms(1) by (simp_all add: inv_def)
  have fresh: "history s ! unat (head s) = GHBEntry_default"
    using ci ok False by (simp add: cfg_inv_def slot_ok_def)
  have "s\<lparr> history := (history s)[unat (head s) := history s ! unat (head s)],
            lastIndex := unmapSlot (lastIndex s) (head s) \<rparr> = s"
    by (simp add: fresh_unmap [OF ii fresh])
  then show ?thesis using False by (intro exI [of _ "history s ! unat (head s)"]) simp
qed


lemma unat_neq: "(unat (p::int32) = unat q) = (p = q)"
  by (simp add: word_unat_eq_iff)

lemma links_both: "(f(PC := a))(Page := b) = (\<lambda>k. case k of PC \<Rightarrow> a | Page \<Rightarrow> b)"
  by (rule ext) (simp split: CorrelationKey.splits)

lemma insert_stages:
  fixes s1 :: GHBHistory and entry :: GHBEntry and access :: AccessInfo
  defines "s2 \<equiv> s1\<lparr> history := (history s1)[unat (head s1) :=
                                   entry\<lparr> addr := acc_addr access, seq := sequenceCounter s1 \<rparr>],
                               sequenceCounter := sequenceCounter s1 + 1 \<rparr>"
  assumes a0: "historySize s \<noteq> 0"
    and a1: "(if filled s then evictIndex s (head s) else Some s) = Some s1"
    and a2: "entryAt (history s1) (head s1) = Some entry"
    and a3: "(if usePC s2 \<and> acc_pc access \<noteq> None
               then assignCorrelation s2 (head s1) PC (the (acc_pc access))
               else Some (s2\<lparr> history := (history s2)[unat (head s1) :=
                      (history s2 ! unat (head s1))\<lparr> links :=
                         (links (history s2 ! unat (head s1)))(PC := LinkInfo_default) \<rparr>] \<rparr>)) = Some s3"
    and a4: "computePage s3 (acc_addr access) = Some page"
    and a5: "assignCorrelation s3 (head s1) Page page = Some s4"
  shows "insert_ghb s access =
           Some (head s1, s4\<lparr> head := (head s4 + 1) mod historySize s4,
                     filled := (if (head s4 + 1) mod historySize s4 = 0 then True else filled s4) \<rparr>)"
  unfolding insert_ghb_def
  by (simp only: a0 if_False a1 option.case Let_def a2 a3 [unfolded s2_def] a4 a5)


lemma insert_char:
  assumes iv: "inv s" and ok: "slot_ok (history s) (head s)"
  shows "insert_ghb s access = Some (head s, inserted s access)"
proof -
  let ?h = "head s" and ?hs = "history s"
  let ?i0 = "unmapSlot (lastIndex s) ?h"
  let ?page = "acc_addr access div ucast (pageBytes s)"
  have ci: "cfg_inv s" and ii: "index_inv s" using iv by (simp_all add: inv_def)
  have hs0: "historySize s \<noteq> 0" and pb: "pageBytes s \<noteq> 0" using ci by (simp_all add: cfg_inv_def)
  have lt: "unat ?h < length ?hs" using ok by (simp add: slot_ok_def)
  obtain v' where ev: "(if filled s then evictIndex s ?h else Some s) =
      Some (s\<lparr> history := ?hs[unat ?h := v'], lastIndex := ?i0 \<rparr>)"
    using evict_step [OF iv ok] by blast
  define s1 where "s1 = s\<lparr> history := ?hs[unat ?h := v'], lastIndex := ?i0 \<rparr>"
  define s2 where "s2 = s1\<lparr> history := (history s1)[unat (head s1) :=
        v'\<lparr> addr := acc_addr access, seq := sequenceCounter s1 \<rparr>],
        sequenceCounter := sequenceCounter s1 + 1 \<rparr>"
  have h1: "head s1 = ?h" by (simp add: s1_def)
  have e1: "entryAt (history s1) (head s1) = Some v'"
    using ok lt by (simp add: entryAt_def s1_def)
  have s2_eq: "s2 = s\<lparr> history := ?hs[unat ?h := v'\<lparr> addr := acc_addr access, seq := sequenceCounter s \<rparr>],
        lastIndex := ?i0, sequenceCounter := sequenceCounter s + 1 \<rparr>"
    by (simp add: s2_def s1_def)
  have i0ok: "slot_ok ?hs q \<and> q \<noteq> ?h" if "?i0 k v = Some q" for k v q
    using unmapSlot_neq [OF that] index_invD [OF ii, of k v q] by simp
  have seq2: "seq (history s2 ! unat q) = seq (?hs ! unat q)" if "?i0 k v = Some q" for k v q
    using i0ok [OF that] by (auto simp add: s2_eq unat_neq)
  have ok2: "slot_ok (history s2) ?h" using ok by (simp add: s2_eq)
  have li2: "lastIndex s2 = ?i0" by (simp add: s2_eq)
  have u2: "usePC s2 = usePC s" by (simp add: s2_eq)
  have apc: "assignCorrelation s2 ?h PC p =
      Some (s2\<lparr> history := (history s2)[unat ?h := (history s2 ! unat ?h)\<lparr> links :=
                 (links (history s2 ! unat ?h))(PC := wiredLink ?i0 ?hs PC p) \<rparr>],
               lastIndex := (lastIndex s2)(PC := (lastIndex s2 PC)(p \<mapsto> ?h)) \<rparr>)" for p
  proof -
    have w: "wiredLink (lastIndex s2) (history s2) PC p = wiredLink ?i0 ?hs PC p"
      unfolding li2 by (rule wiredLink_cong) (rule seq2)
    have "\<And>q. lastIndex s2 PC p = Some q \<Longrightarrow> slot_ok (history s2) q"
      using i0ok by (simp add: s2_eq)
    from assign_char [OF ok2 this] show ?thesis by (simp add: w)
  qed
  define s3 where "s3 = s2\<lparr> history := (history s2)[unat ?h := (history s2 ! unat ?h)\<lparr> links :=
                 (links (history s2 ! unat ?h))(PC := insertedLinks s access PC) \<rparr>],
               lastIndex := (lastIndex s2)(PC := insertedIndex s access PC) \<rparr>"
  have step3: "(if usePC s2 \<and> acc_pc access \<noteq> None
                           then assignCorrelation s2 (head s1) PC (the (acc_pc access))
                           else Some (s2\<lparr> history := (history s2)[unat (head s1) :=
                                  (history s2 ! unat (head s1))\<lparr> links :=
                                     (links (history s2 ! unat (head s1)))(PC := LinkInfo_default) \<rparr>] \<rparr>)) = Some s3"
  proof (cases "usePC s \<and> acc_pc access \<noteq> None")
    case True
    then show ?thesis
      by (simp add: h1 u2 li2 apc s3_def insertedLinks_def insertedIndex_def)
  next
    case False
    have "(lastIndex s2)(PC := insertedIndex s access PC) = lastIndex s2"
      using False by (auto simp add: insertedIndex_def li2 fun_eq_iff)
    then show ?thesis using False
      by (auto simp add: s3_def insertedLinks_def h1 u2)
  qed
  have cp: "computePage s3 (acc_addr access) = Some ?page"
    using pb by (simp add: computePage_def s3_def s2_eq)
  have ok3: "slot_ok (history s3) ?h" using ok by (simp add: s3_def s2_eq)
  have i3: "lastIndex s3 Page = ?i0 Page" by (simp add: s3_def s2_eq)
  have w3: "wiredLink (lastIndex s3) (history s3) Page ?page = wiredLink ?i0 ?hs Page ?page"
  proof -
    have "seq (history s3 ! unat q) = seq (?hs ! unat q)" if "?i0 Page ?page = Some q" for q
      using i0ok [OF that] by (auto simp add: s3_def s2_eq unat_neq)
    then show ?thesis by (simp add: wiredLink_def i3 split: option.splits)
  qed
  have "\<And>q. lastIndex s3 Page ?page = Some q \<Longrightarrow> slot_ok (history s3) q"
    using i0ok by (simp add: s3_def s2_eq)
  from assign_char [OF ok3 this]
  have apg: "assignCorrelation s3 (head s1) Page ?page =
      Some (s3\<lparr> history := (history s3)[unat ?h := (history s3 ! unat ?h)\<lparr> links :=
                 (links (history s3 ! unat ?h))(Page := wiredLink ?i0 ?hs Page ?page) \<rparr>],
               lastIndex := (lastIndex s3)(Page := (lastIndex s3 Page)(?page \<mapsto> ?h)) \<rparr>)"
    by (simp add: w3 h1)
  have idx_eq: "(lastIndex s3)(Page := (lastIndex s3 Page)(?page \<mapsto> ?h)) = insertedIndex s access"
  proof
    fix k show "((lastIndex s3)(Page := (lastIndex s3 Page)(?page \<mapsto> ?h))) k = insertedIndex s access k"
      by (cases k) (simp_all add: s3_def s2_eq insertedIndex_def)
  qed
  have ent_eq: "(history s3 ! unat ?h)\<lparr> links :=
                 (links (history s3 ! unat ?h))(Page := wiredLink ?i0 ?hs Page ?page) \<rparr>
       = \<lparr> addr = acc_addr access, links = insertedLinks s access, seq = sequenceCounter s \<rparr>"
  proof -
    have "(links (history s3 ! unat ?h))(Page := wiredLink ?i0 ?hs Page ?page) = insertedLinks s access"
    proof
      fix k show "((links (history s3 ! unat ?h))(Page := wiredLink ?i0 ?hs Page ?page)) k = insertedLinks s access k"
        using lt by (cases k) (simp_all add: s3_def s2_eq insertedLinks_def)
    qed
    then show ?thesis using lt by (cases v') (simp add: s3_def s2_eq)
  qed
  have fin: "insert_ghb s access = Some (head s1, 
       (s3\<lparr> history := (history s3)[unat ?h := \<lparr> addr = acc_addr access, links = insertedLinks s access, seq = sequenceCounter s \<rparr>],
               lastIndex := insertedIndex s access \<rparr>)
       \<lparr> head := (?h + 1) mod historySize s,
         filled := (if (?h + 1) mod historySize s = 0 then True else filled s) \<rparr>)"
    using insert_stages [OF hs0 ev [folded s1_def] e1 step3 [unfolded s2_def] cp apg [unfolded idx_eq ent_eq]]
    by (simp add: s3_def s2_eq)
  show ?thesis unfolding fin
    by (simp add: inserted_def s3_def s2_eq h1)
qed


section \<open>The invariants hold in every reachable state\<close>

lemma head_step:
  fixes h n :: uint32
  assumes "unat h < unat n"
  shows "unat ((h + 1) mod n) = (unat h + 1) mod unat n"
proof -
  have "unat n < 2 ^ 32" using unsigned_less [of n] by simp
  then have "unat h + 1 < 2 ^ 32" using assms by simp
  then have "unat (h + 1) = unat h + 1"
    by (simp add: unat_word_ariths)
  then show ?thesis by (simp add: unat_mod)
qed

lemma insert_None:
  assumes "historySize s \<noteq> 0" "\<not> slot_ok (history s) (head s)"
  shows "insert_ghb s access = None"
  using assms
  by (simp add: insert_ghb_def evictIndex_def removeIndexMappings_def entryAt_def)

lemma insert_Some:
  assumes "inv s" "insert_ghb s access = Some (slot, s')"
  shows "slot_ok (history s) (head s) \<and> slot = head s \<and> s' = inserted s access"
proof -
  have "historySize s \<noteq> 0" using assms(1) by (simp add: inv_def cfg_inv_def)
  then have ok: "slot_ok (history s) (head s)"
    using insert_None [of s access] assms(2) by auto
  then show ?thesis using insert_char [OF assms(1) ok, of access] assms(2) by simp
qed


lemma inserted_simps [simp]:
  "length (history (inserted s a)) = length (history s)"
  "historySize (inserted s a) = historySize s"
  "pageBytes (inserted s a) = pageBytes s"
  "patternLength (inserted s a) = patternLength s"
  "usePC (inserted s a) = usePC s"
  "degree (inserted s a) = degree s"
  "confidenceThreshold (inserted s a) = confidenceThreshold s"
  "patternTable (inserted s a) = patternTable s"
  "head (inserted s a) = (head s + 1) mod historySize s"
  "sequenceCounter (inserted s a) = sequenceCounter s + 1"
  "lastIndex (inserted s a) = insertedIndex s a"
  by (simp_all add: inserted_def)

lemma inserted_nth_other:
  "c \<noteq> unat (head s) \<Longrightarrow> history (inserted s a) ! c = history s ! c"
  by (simp add: inserted_def)

lemma inserted_nth_head:
  "unat (head s) < length (history s) \<Longrightarrow>
     history (inserted s a) ! unat (head s) =
       \<lparr> addr = acc_addr a, links = insertedLinks s a, seq = sequenceCounter s \<rparr>"
  by (simp add: inserted_def)

lemma slot_ok_inserted [simp]: "slot_ok (history (inserted s a)) p = slot_ok (history s) p"
  by (simp add: slot_ok_def)

lemma cfg_inv_inserted:
  assumes "cfg_inv s"
  shows "cfg_inv (inserted s a)"
proof -
  have n0: "historySize s \<noteq> 0" and lt: "unat (head s) < unat (historySize s)"
    and len: "length (history s) = unat (historySize s)"
    using assms by (simp_all add: cfg_inv_def)
  have hd': "unat ((head s + 1) mod historySize s) = (unat (head s) + 1) mod unat (historySize s)"
    by (rule head_step [OF lt])
  have pos: "0 < unat (historySize s)" using n0 by (simp add: unat_gt_0)
  have b: "unat ((head s + 1) mod historySize s) < unat (historySize s)"
    unfolding hd' using pos by simp
  have fresh: "history (inserted s a) ! i = GHBEntry_default"
    if nf: "\<not> filled (inserted s a)" and i: "unat (head (inserted s a)) \<le> i" "i < length (history s)" for i
  proof -
    have nz: "(head s + 1) mod historySize s \<noteq> 0" and nf0: "\<not> filled s"
      using nf by (auto simp add: inserted_def split: if_splits)
    have "(unat (head s) + 1) mod unat (historySize s) \<noteq> 0"
      using nz hd' by (metis unat_eq_0)
    then have "unat (head s) + 1 < unat (historySize s)"
      using lt by (metis Suc_eq_plus1 Suc_lessI mod_self)
    then have "unat (head (inserted s a)) = unat (head s) + 1"
      using hd' by simp
    then have "unat (head s) \<le> i" "i \<noteq> unat (head s)" using i by simp_all
    then show ?thesis using assms nf0 i(2) by (simp add: inserted_nth_other cfg_inv_def)
  qed
  show ?thesis
    unfolding cfg_inv_def using assms b fresh
    by (simp add: cfg_inv_def)
qed


lemma wiredLink_simps [simp]:
  "keyValid (wiredLink idx h k v) = True"
  "keyValue (wiredLink idx h k v) = v"
  "prev (wiredLink idx h k v) = (case idx k v of None \<Rightarrow> - 1 | Some q \<Rightarrow> q)"
  "prevSeq (wiredLink idx h k v) = (case idx k v of None \<Rightarrow> 0 | Some q \<Rightarrow> seq (h ! unat q))"
  by (simp_all add: wiredLink_def split: option.splits)

lemma insertedIndex_cases:
  assumes "insertedIndex s a k v = Some p"
  shows "(p = head s \<and> keyValid (insertedLinks s a k) \<and> keyValue (insertedLinks s a k) = v)
         \<or> (p \<noteq> head s \<and> lastIndex s k v = Some p)"
proof (cases k)
  case PC
  show ?thesis
  proof (cases "usePC s \<and> acc_pc a \<noteq> None")
    case True
    then show ?thesis using assms PC unmapSlot_neq [of "lastIndex s" "head s" PC v p]
      by (auto simp add: insertedIndex_def insertedLinks_def split: if_splits)
  next
    case False
    then show ?thesis using assms PC unmapSlot_neq [of "lastIndex s" "head s" PC v p]
      by (auto simp add: insertedIndex_def)
  qed
next
  case Page
  then show ?thesis using assms unmapSlot_neq [of "lastIndex s" "head s" Page v p]
    by (auto simp add: insertedIndex_def insertedLinks_def split: if_splits)
qed

lemma index_inv_inserted:
  assumes ii: "index_inv s" and ok: "slot_ok (history s) (head s)"
  shows "index_inv (inserted s a)"
  unfolding index_inv_def
proof (intro allI impI)
  fix k v p
  assume "lastIndex (inserted s a) k v = Some p"
  then have m: "insertedIndex s a k v = Some p" by simp
  have lt: "unat (head s) < length (history s)" using ok by (simp add: slot_ok_def)
  from insertedIndex_cases [OF m]
  show "slot_ok (history (inserted s a)) p
        \<and> keyValid (links (history (inserted s a) ! unat p) k)
        \<and> keyValue (links (history (inserted s a) ! unat p) k) = v"
  proof
    assume "p = head s \<and> keyValid (insertedLinks s a k) \<and> keyValue (insertedLinks s a k) = v"
    then show ?thesis using ok lt by (simp add: inserted_nth_head)
  next
    assume a: "p \<noteq> head s \<and> lastIndex s k v = Some p"
    then have "unat p \<noteq> unat (head s)" by (simp add: unat_neq)
    then show ?thesis using index_invD [OF ii, of k v p] a by (simp add: inserted_nth_other)
  qed
qed

lemma insertedLinks_prev:
  assumes ii: "index_inv s"
  shows "prev (insertedLinks s a k) = - 1
         \<or> (slot_ok (history s) (prev (insertedLinks s a k))
             \<and> prev (insertedLinks s a k) \<noteq> head s
             \<and> prevSeq (insertedLinks s a k) = seq (history s ! unat (prev (insertedLinks s a k))))"
proof -
  have w: "prev (wiredLink (unmapSlot (lastIndex s) (head s)) (history s) k v) = - 1
         \<or> (slot_ok (history s) (prev (wiredLink (unmapSlot (lastIndex s) (head s)) (history s) k v))
             \<and> prev (wiredLink (unmapSlot (lastIndex s) (head s)) (history s) k v) \<noteq> head s
             \<and> prevSeq (wiredLink (unmapSlot (lastIndex s) (head s)) (history s) k v)
                 = seq (history s ! unat (prev (wiredLink (unmapSlot (lastIndex s) (head s)) (history s) k v))))" for k v
  proof (cases "unmapSlot (lastIndex s) (head s) k v")
    case None
    then show ?thesis by simp
  next
    case (Some q)
    then show ?thesis
      using unmapSlot_neq [OF Some] index_invD [OF ii, of k v q] by simp
  qed
  show ?thesis
  proof (cases k)
    case PC
    then show ?thesis using w [of PC] by (simp add: insertedLinks_def LinkInfo_default_def)
  next
    case Page
    then show ?thesis using w [of Page] by (simp add: insertedLinks_def)
  qed
qed

lemma link_inv_inserted:
  assumes ii: "index_inv s" and li: "link_inv s" and ok: "slot_ok (history s) (head s)"
  shows "link_inv (inserted s a)"
  unfolding link_inv_def
proof (intro allI impI)
  fix c k
  assume "c < length (history (inserted s a))"
  then have c: "c < length (history s)" by simp
  have lt: "unat (head s) < length (history s)" using ok by (simp add: slot_ok_def)
  show "prev (links (history (inserted s a) ! c) k) = - 1
        \<or> (slot_ok (history (inserted s a)) (prev (links (history (inserted s a) ! c) k))
            \<and> unat (prev (links (history (inserted s a) ! c) k)) \<noteq> c)"
  proof (cases "c = unat (head s)")
    case True
    then show ?thesis using insertedLinks_prev [OF ii, of a k] lt
      by (auto simp add: inserted_nth_head unat_neq)
  next
    case False
    then show ?thesis using li c by (simp add: inserted_nth_other link_inv_def)
  qed
qed

lemma inv_inserted:
  assumes "inv s" "slot_ok (history s) (head s)"
  shows "inv (inserted s a)"
  using assms cfg_inv_inserted [of s a] index_inv_inserted [of s a] link_inv_inserted [of s a]
  by (simp add: inv_def table_inv_def)


lemma seq_inv_inserted:
  assumes sq: "seq_inv n s" and ii: "index_inv s" and ok: "slot_ok (history s) (head s)"
    and nw: "n + 2 < 2 ^ 64"
  shows "seq_inv (Suc n) (inserted s a)"
proof -
  let ?h = "unat (head s)" and ?s' = "inserted s a"
  have lt: "?h < length (history s)" using ok by (simp add: slot_ok_def)
  have cnt: "unat (sequenceCounter s) = n + 1"
    and le: "\<And>i. i < length (history s) \<Longrightarrow> unat (seq (history s ! i)) \<le> n"
    and dist: "\<And>i j. i < length (history s) \<Longrightarrow> j < length (history s) \<Longrightarrow> i \<noteq> j \<Longrightarrow>
                 seq (history s ! i) \<noteq> 0 \<Longrightarrow> seq (history s ! i) \<noteq> seq (history s ! j)"
    and lk: "\<And>c k. c < length (history s) \<Longrightarrow> 0 \<le> sint (prev (links (history s ! c) k)) \<Longrightarrow>
            prevSeq (links (history s ! c) k) < seq (history s ! c)
            \<and> (seq (history s ! unat (prev (links (history s ! c) k)))
                  = prevSeq (links (history s ! c) k)
                \<or> seq (history s ! c) < seq (history s ! unat (prev (links (history s ! c) k))))"
    using sq unfolding seq_inv_def by blast+
  have seqh: "seq (history ?s' ! ?h) = sequenceCounter s"
    using lt by (simp add: inserted_nth_head)
  have seqo: "\<And>i. i \<noteq> ?h \<Longrightarrow> seq (history ?s' ! i) = seq (history s ! i)"
    by (simp add: inserted_nth_other)
  have old_lt: "seq (history s ! i) < sequenceCounter s" if "i < length (history s)" for i
    using le [OF that] cnt by (simp add: word_less_nat_alt)
  have c1: "unat (sequenceCounter ?s') = Suc n + 1"
  proof -
    have "unat (sequenceCounter s) + unat (1 :: uint64) < 2 ^ 64" using cnt nw by simp
    then have "unat (sequenceCounter s + 1) = unat (sequenceCounter s) + unat (1 :: uint64)"
      by (simp add: unat_add_lem [THEN iffD1])
    then show ?thesis using cnt by simp
  qed
  have c2: "unat (seq (history ?s' ! i)) \<le> Suc n" if "i < length (history ?s')" for i
  proof (cases "i = ?h")
    case True then show ?thesis using seqh cnt by simp
  next
    case False then show ?thesis using seqo [OF False] le [of i] that by simp
  qed
  have c3: "seq (history ?s' ! i) \<noteq> seq (history ?s' ! j)"
    if "i < length (history ?s')" "j < length (history ?s')" "i \<noteq> j" "seq (history ?s' ! i) \<noteq> 0" for i j
  proof -
    have li: "i < length (history s)" and lj: "j < length (history s)" using that by simp_all
    consider "i = ?h" | "j = ?h" "i \<noteq> ?h" | "i \<noteq> ?h" "j \<noteq> ?h" by blast
    then show ?thesis
    proof cases
      case 1
      then have "j \<noteq> ?h" using that(3) by simp
      then show ?thesis using 1 seqh seqo [of j] old_lt [OF lj] by auto
    next
      case 2
      then show ?thesis using seqh seqo [of i] old_lt [OF li] by auto
    next
      case 3
      then show ?thesis using seqo dist [OF li lj that(3)] that(4) by simp
    qed
  qed
  have c4: "prevSeq (links (history ?s' ! c) k) < seq (history ?s' ! c)
            \<and> (seq (history ?s' ! unat (prev (links (history ?s' ! c) k)))
                  = prevSeq (links (history ?s' ! c) k)
                \<or> seq (history ?s' ! c) < seq (history ?s' ! unat (prev (links (history ?s' ! c) k))))"
    if "c < length (history ?s')" "0 \<le> sint (prev (links (history ?s' ! c) k))" for c k
  proof (cases "c = ?h")
    case True
    let ?l = "insertedLinks s a k"
    have l: "links (history ?s' ! c) k = ?l" using True lt by (simp add: inserted_nth_head)
    have "prev ?l \<noteq> - 1" using that(2) l by auto
    then have q: "slot_ok (history s) (prev ?l)" "prev ?l \<noteq> head s"
      "prevSeq ?l = seq (history s ! unat (prev ?l))"
      using insertedLinks_prev [OF ii, of a k] by auto
    have qh: "unat (prev ?l) \<noteq> ?h" using q(2) by (simp add: unat_neq)
    have ql: "unat (prev ?l) < length (history s)" using q(1) by (simp add: slot_ok_def)
    show ?thesis unfolding l using True seqh seqo [OF qh] q(3) old_lt [OF ql] by simp
  next
    case False
    have cl: "c < length (history s)" using that(1) by simp
    have l: "links (history ?s' ! c) k = links (history s ! c) k"
      using False by (simp add: inserted_nth_other)
    have pos: "0 \<le> sint (prev (links (history s ! c) k))" using that(2) l by simp
    note o = lk [OF cl pos]
    show ?thesis
    proof (cases "unat (prev (links (history s ! c) k)) = ?h")
      case True
      then show ?thesis unfolding l using o seqo [OF False] seqh old_lt [OF cl] by simp
    next
      case f2: False
      then show ?thesis unfolding l using o seqo [OF False] seqo [OF f2] by simp
    qed
  qed
  show ?thesis unfolding seq_inv_def using c1 c2 c3 c4 by blast
qed


lemma max1_nonzero: "max 1 (x :: uint32) \<noteq> 0"
  by (metis max.cobounded1 word_le_0_iff zero_neq_one)

lemma inv_ctor: "inv (GHBHistory_ctor hs pl dg upc pb ct)"
  using max1_nonzero [of hs] max1_nonzero [of pl] max1_nonzero [of pb]
  by (simp add: inv_def cfg_inv_def index_inv_def link_inv_def table_inv_def GHBHistory_ctor_def
      GHBEntry_default_def LinkInfo_default_def unat_gt_0)

lemma seq_inv_ctor: "seq_inv 0 (GHBHistory_ctor hs pl dg upc pb ct)"
  by (simp add: seq_inv_def GHBHistory_ctor_def GHBEntry_default_def LinkInfo_default_def)

lemma reset_entry:
  "entry\<lparr> addr := 0, seq := 0, links := (\<lambda>_. LinkInfo_default) \<rparr> = GHBEntry_default"
  by (cases entry) (simp add: GHBEntry_default_def)

lemma reset_eq:
  "reset s = s\<lparr> history := replicate (length (history s)) GHBEntry_default,
        lastIndex := (\<lambda>_. Map.empty), head := 0, filled := False,
        sequenceCounter := 1, patternTable := Map.empty \<rparr>"
  by (simp add: reset_def reset_entry map_replicate_const)

lemma inv_reset:
  assumes "cfg_inv s"
  shows "inv (reset s)"
  using assms
  by (simp add: reset_eq inv_def cfg_inv_def index_inv_def link_inv_def table_inv_def
      GHBEntry_default_def LinkInfo_default_def unat_gt_0)

lemma seq_inv_reset: "seq_inv 0 (reset s)"
  by (simp add: reset_eq seq_inv_def GHBEntry_default_def LinkInfo_default_def)

lemma countsIncr_nonempty: "countsIncr cs d \<noteq> []"
  by (cases cs) (auto split: if_splits)

lemma learn_nonempty:
  assumes "\<And>key e. pt key = Some e \<Longrightarrow> counts e \<noteq> []" and "learn pt k d key = Some e"
  shows "counts e \<noteq> []"
  using assms countsIncr_nonempty
  by (auto simp add: learn_def Let_def split: if_splits)

lemma updateLoop_nonempty:
  assumes "\<And>key e. pt key = Some e \<Longrightarrow> counts e \<noteq> []" and "updateLoop pt ch i key = Some e"
  shows "counts e \<noteq> []"
  using assms
proof (induction pt ch i arbitrary: key e rule: updateLoop.induct)
  case (1 pt ch i)
  show ?case
  proof (cases "i + 2 < length ch")
    case True
    have "updateLoop (learn pt (ch ! i, ch ! (i + 1)) (ch ! (i + 2))) ch (i + 1) key = Some e"
      using "1.prems"(2) True by (subst (asm) updateLoop.simps) simp
    moreover have "\<And>key e. learn pt (ch ! i, ch ! (i + 1)) (ch ! (i + 2)) key = Some e \<Longrightarrow> counts e \<noteq> []"
      using learn_nonempty [of pt] "1.prems"(1) by blast
    ultimately show ?thesis using "1.IH" [OF True] by blast
  next
    case False
    then have "updateLoop pt ch i = pt" by (subst updateLoop.simps) simp
    then show ?thesis using "1.prems" by simp
  qed
qed

lemma update_fields [simp]:
  "history (updatePatternTable s ch) = history s"
  "lastIndex (updatePatternTable s ch) = lastIndex s"
  "head (updatePatternTable s ch) = head s"
  "filled (updatePatternTable s ch) = filled s"
  "sequenceCounter (updatePatternTable s ch) = sequenceCounter s"
  "historySize (updatePatternTable s ch) = historySize s"
  "patternLength (updatePatternTable s ch) = patternLength s"
  "pageBytes (updatePatternTable s ch) = pageBytes s"
  "usePC (updatePatternTable s ch) = usePC s"
  "degree (updatePatternTable s ch) = degree s"
  "confidenceThreshold (updatePatternTable s ch) = confidenceThreshold s"
  by (simp_all add: updatePatternTable_def)

lemma table_inv_update:
  assumes "table_inv s"
  shows "table_inv (updatePatternTable s ch)"
proof (cases "length ch < 3")
  case True
  then show ?thesis using assms by (simp add: updatePatternTable_def)
next
  case False
  have "\<And>key e. patternTable s key = Some e \<Longrightarrow> counts e \<noteq> []"
    using assms unfolding table_inv_def by blast
  from updateLoop_nonempty [of "patternTable s" ch 0, OF this]
  show ?thesis using False unfolding table_inv_def by (simp add: updatePatternTable_def)
qed

lemma inv_update:
  assumes "inv s"
  shows "inv (updatePatternTable s ch)"
  using assms table_inv_update [of s ch]
  by (simp add: inv_def cfg_inv_def index_inv_def link_inv_def)

lemma seq_inv_update: "seq_inv n (updatePatternTable s ch) = seq_inv n s"
  by (simp add: seq_inv_def)

lemma reach_inv:
  assumes "reach s0 n s" "inv s0"
  shows "inv s"
  using assms
proof (induction rule: reach.induct)
  case reach_start
  then show ?case by simp
next
  case (reach_reset n s)
  then show ?case using inv_reset [of s] by (simp add: inv_def)
next
  case (reach_insert n s access slot s')
  then have "inv s" by simp
  from insert_Some [OF this reach_insert.hyps(2)] inv_inserted [OF this]
  show ?case by simp
next
  case (reach_update n s chronological)
  then show ?case using inv_update by simp
qed

lemma reach_seq_inv:
  assumes "reach s0 n s" "inv s0" "seq_inv 0 s0" "n + 1 < 2 ^ 64"
  shows "seq_inv n s"
  using assms
proof (induction rule: reach.induct)
  case reach_start
  then show ?case by simp
next
  case (reach_reset n s)
  then show ?case using seq_inv_reset by simp
next
  case (reach_insert n s access slot s')
  have iv: "inv s" using reach_inv [OF reach_insert.hyps(1) reach_insert.prems(1)] .
  have sq: "seq_inv n s" using reach_insert by simp
  have nw: "n + 2 < 2 ^ 64" using reach_insert.prems(3) by simp
  from insert_Some [OF iv reach_insert.hyps(2)]
  have ok: "slot_ok (history s) (head s)" and s': "s' = inserted s access" by simp_all
  have "index_inv s" using iv by (simp add: inv_def)
  from seq_inv_inserted [OF sq this ok nw] show ?case by (simp add: s')
next
  case (reach_update n s chronological)
  then show ?case by (simp add: seq_inv_update)
qed


section \<open>The correlation index has no dangling entry\<close>

lemma reach_inserted:
  assumes "reach s0 n s" "inv s" "slot_ok (history s) (head s)"
  shows "reach s0 (Suc n) (inserted s a)"
  by (rule reach_insert [OF assms(1) insert_char [OF assms(2,3)]])

lemma ex_fresh_inv: "inv ex_fresh"
  by (simp add: ex_fresh_def inv_ctor)

lemma ex_fresh_fields:
  "head ex_fresh = 0" "historySize ex_fresh = 16" "length (history ex_fresh) = 16"
  "pageBytes ex_fresh = 64" "usePC ex_fresh" "patternLength ex_fresh = 4"
  "lastIndex ex_fresh = (\<lambda>_. Map.empty)" "sequenceCounter ex_fresh = 1" "\<not> filled ex_fresh"
  by (simp_all add: ex_fresh_def GHBHistory_ctor_def)

lemma ex_stride_reach:
  assumes "reach s0 n s" "inv s" "head s = 0" "historySize s = 16" "length (history s) = 16"
  shows "reach s0 (Suc (Suc (Suc n))) (ex_stride s)"
proof -
  let ?s1 = "inserted s (ex_access 0)"
  let ?s2 = "inserted ?s1 (ex_access 0x40)"
  have ok0: "slot_ok (history s) (head s)" using assms by (simp add: slot_ok_def)
  have r1: "reach s0 (Suc n) ?s1" and i1: "inv ?s1"
    using reach_inserted [OF assms(1,2) ok0] inv_inserted [OF assms(2) ok0] by simp_all
  have ok1: "slot_ok (history ?s1) (head ?s1)" using assms by (simp add: slot_ok_def)
  have r2: "reach s0 (Suc (Suc n)) ?s2" and i2: "inv ?s2"
    using reach_inserted [OF r1 i1 ok1] inv_inserted [OF i1 ok1] by simp_all
  have ok2: "slot_ok (history ?s2) (head ?s2)" using assms by (simp add: slot_ok_def)
  show ?thesis
    using reach_inserted [OF r2 i2 ok2, of "ex_access 0x80"]
    by (simp add: ex_stride_def eval_nat_numeral)
qed

lemma ex_stride_fresh_reach: "reach ex_fresh 3 (ex_stride ex_fresh)"
  using ex_stride_reach [OF reach_start ex_fresh_inv] by (simp add: ex_fresh_fields eval_nat_numeral)

lemma ex_stride_index:
  assumes "head s = 0" "historySize s = 16" "length (history s) = 16" "pageBytes s = 64"
    "usePC s" "lastIndex s = (\<lambda>_. Map.empty)"
  shows "lastIndex (ex_stride s) PC 0x100 = Some 2"
    and "lastIndex (ex_stride s) Page 2 = Some 2"
  using assms
  by (simp_all add: ex_stride_def ex_access_def insertedIndex_def unmapSlot_def)


section \<open>The pattern builder\<close>

lemma sint_minus1 [simp]: "sint (- 1 :: int32) = - 1"
  by simp

lemma link_inv_prev_ok:
  assumes "link_inv s" "slot_ok (history s) c" "0 \<le> sint (prev (links (history s ! unat c) key))"
  shows "slot_ok (history s) (prev (links (history s ! unat c) key))"
proof -
  have "unat c < length (history s)" using assms(2) by (simp add: slot_ok_def)
  then have "prev (links (history s ! unat c) key) = - 1
        \<or> slot_ok (history s) (prev (links (history s ! unat c) key))"
    using assms(1) unfolding link_inv_def by blast
  then show ?thesis using assms(3) by auto
qed

lemma buildLoop_chain:
  assumes "link_inv s" "slot_ok (history s) current"
  shows "buildLoop s key current deltas =
           Some (deltas @ chainDeltas s key (unat (patternLength s) - length deltas) current)"
  using assms
proof (induction s key current deltas rule: buildLoop.induct)
  case (1 s key current deltas)
  let ?link = "links (history s ! unat current) key"
  let ?m = "unat (patternLength s) - length deltas"
  show ?case
  proof (cases "length deltas < unat (patternLength s)")
    case False
    then show ?thesis by (subst buildLoop.simps) simp
  next
    case True
    then obtain m' where m: "?m = Suc m'" "unat (patternLength s) - length (deltas @ [d]) = m'" for d
      by (cases ?m) auto
    have e: "entryAt (history s) current = Some (history s ! unat current)"
      using "1.prems"(2) by (rule entryAt_Some)
    show ?thesis
    proof (cases "sint (prev ?link) < 0")
      case neg: True
      then have "\<not> linkFollowable s key current" by (simp add: linkFollowable_def)
      then show ?thesis using True neg e m(1)
        by (subst buildLoop.simps) (simp add: Let_def)
    next
      case pos: False
      then have pok: "slot_ok (history s) (prev ?link)"
        using link_inv_prev_ok [OF "1.prems"] by simp
      have pe: "entryAt (history s) (prev ?link) = Some (history s ! unat (prev ?link))"
        using pok by (rule entryAt_Some)
      show ?thesis
      proof (cases "seq (history s ! unat (prev ?link)) = prevSeq ?link")
        case stale: False
        then have "\<not> linkFollowable s key current" by (simp add: linkFollowable_def)
        then show ?thesis using True pos e pe stale m(1)
          by (subst buildLoop.simps) (simp add: Let_def)
      next
        case same: True
        then have f: "linkFollowable s key current" using pos by (simp add: linkFollowable_def)
        let ?d = "addr (history s ! unat current) - addr (history s ! unat (prev ?link))"
        have ih: "buildLoop s key (prev ?link) (deltas @ [?d]) =
             Some ((deltas @ [?d]) @ chainDeltas s key m' (prev ?link))"
          using "1.IH" [OF True e refl _ pe _ "1.prems"(1) pok] pos same m(2) by simp
        have "buildLoop s key current deltas = buildLoop s key (prev ?link) (deltas @ [?d])"
          using True pos e pe same by (subst buildLoop.simps) (simp add: Let_def)
        then show ?thesis using ih f m(1) by simp
      qed
    qed
  qed
qed

lemma chainSlot_shift:
  "chainSlot s key c (Suc i) = chainSlot s key (prev (links (history s ! unat c) key)) i"
  by (induction i) simp_all

lemma chainDeltas_length: "length (chainDeltas s key m c) \<le> m"
  by (induction m arbitrary: c) simp_all

lemma chainDeltas_nth:
  assumes "i < length (chainDeltas s key m c)"
  shows "linkFollowable s key (chainSlot s key c i)
         \<and> chainDeltas s key m c ! i =
             addr (history s ! unat (chainSlot s key c i))
               - addr (history s ! unat (chainSlot s key c (Suc i)))"
  using assms
proof (induction m arbitrary: c i)
  case 0
  then show ?case by simp
next
  case (Suc m)
  then have f: "linkFollowable s key c" by (auto split: if_splits)
  show ?case
  proof (cases i)
    case 0
    then show ?thesis using f by simp
  next
    case (Suc j)
    then have "j < length (chainDeltas s key m (prev (links (history s ! unat c) key)))"
      using Suc.prems f by simp
    from Suc.IH [OF this] show ?thesis using f Suc
      by (simp add: chainSlot_shift del: chainSlot.simps(2))
  qed
qed

lemma chainDeltas_stop:
  "length (chainDeltas s key m c) = m
   \<or> \<not> linkFollowable s key (chainSlot s key c (length (chainDeltas s key m c)))"
proof (induction m arbitrary: c)
  case 0
  then show ?case by simp
next
  case (Suc m)
  show ?case
  proof (cases "linkFollowable s key c")
    case True
    then show ?thesis using Suc [of "prev (links (history s ! unat c) key)"]
      by (auto simp add: chainSlot_shift simp del: chainSlot.simps(2))
  next
    case False
    then show ?thesis by simp
  qed
qed


lemma ex_stride_entries:
  assumes "head s = 0" "historySize s = 16" "length (history s) = 16" "pageBytes s = 64"
    "usePC s" "lastIndex s = (\<lambda>_. Map.empty)" "sequenceCounter s = 1"
  shows "addr (history (ex_stride s) ! 2) = 0x80" "addr (history (ex_stride s) ! 1) = 0x40"
    "addr (history (ex_stride s) ! 0) = 0"
    "seq (history (ex_stride s) ! 2) = 3" "seq (history (ex_stride s) ! 1) = 2"
    "seq (history (ex_stride s) ! 0) = 1"
    "links (history (ex_stride s) ! 2) PC = \<lparr> prev = 1, prevSeq = 2, keyValue = 0x100, keyValid = True \<rparr>"
    "links (history (ex_stride s) ! 1) PC = \<lparr> prev = 0, prevSeq = 1, keyValue = 0x100, keyValid = True \<rparr>"
    "links (history (ex_stride s) ! 0) PC = \<lparr> prev = - 1, prevSeq = 0, keyValue = 0x100, keyValid = True \<rparr>"
    "links (history (ex_stride s) ! 2) Page = \<lparr> prev = - 1, prevSeq = 0, keyValue = 2, keyValid = True \<rparr>"
  using assms
  by (simp_all add: ex_stride_def ex_access_def inserted_def insertedLinks_def insertedIndex_def
      unmapSlot_def wiredLink_def)

lemma ex_stride_fields:
  "patternLength (ex_stride s) = patternLength s" "length (history (ex_stride s)) = length (history s)"
  "historySize (ex_stride s) = historySize s"
  by (simp_all add: ex_stride_def)

lemma chainDeltas_numeral:
  "chainDeltas s key (numeral k) c =
     (if linkFollowable s key c
      then (addr (history s ! unat c) - addr (history s ! unat (prev (links (history s ! unat c) key))))
             # chainDeltas s key (pred_numeral k) (prev (links (history s ! unat c) key))
      else [])"
  by (simp add: numeral_eq_Suc)

lemma ex_stride_chain:
  assumes "head s = 0" "historySize s = 16" "length (history s) = 16" "pageBytes s = 64"
    "usePC s" "lastIndex s = (\<lambda>_. Map.empty)" "sequenceCounter s = 1" "patternLength s = 4"
  shows "chainDeltas (ex_stride s) PC (unat (patternLength (ex_stride s))) 2 = [0x40, 0x40]"
    and "chainDeltas (ex_stride s) Page (unat (patternLength (ex_stride s))) 2 = []"
proof -
  show "chainDeltas (ex_stride s) PC (unat (patternLength (ex_stride s))) 2 = [0x40, 0x40]"
    using assms(8) ex_stride_entries [OF assms(1-7)]
    by (simp add: ex_stride_fields chainDeltas_numeral linkFollowable_def)
  show "chainDeltas (ex_stride s) Page (unat (patternLength (ex_stride s))) 2 = []"
    using assms(8) ex_stride_entries [OF assms(1-7)]
    by (simp add: ex_stride_fields chainDeltas_numeral linkFollowable_def)
qed


lemma reach_length:
  assumes "reach (GHBHistory_ctor hs pl dg upc pb ct) n s"
  shows "length (history s) = unat (historySize s)"
  using reach_inv [OF assms inv_ctor] by (simp add: inv_def cfg_inv_def)

lemma slot_ok_int:
  "slot_ok h index \<longleftrightarrow> 0 \<le> sint index \<and> sint index < int (length h)"
proof (cases "0 \<le> sint index")
  case True
  have "sint index < 2 ^ 31" using sint_lt [of index] by simp
  then have "take_bit 32 (sint index) = sint index"
    using True by (simp add: take_bit_int_eq_self)
  then have "sint index = uint index" using uint_sint [of index] by simp
  also have "\<dots> = int (unat index)" by (rule uint_nat)
  finally have "sint index = int (unat index)" .
  then show ?thesis using True unfolding slot_ok_def by linarith
next
  case False
  then show ?thesis by (simp add: slot_ok_def)
qed

text \<open>
  C1. In a reachable state, for an in-range slot index and either key kind,
  \<open>buildPattern\<close> returns (it performs no access outside the buffer) the
  deltas of the chain walked backward from the slot: delta \<open>i\<close> is the
  address of the \<open>i\<close>-th slot of the chain minus the address of its
  predecessor, every link walked has a predecessor whose live sequence number
  is the recorded one, and the walk stops at the first link without
  predecessor or with a stale one, or when \<open>patternLength\<close> deltas are
  collected. The list is most-recent-first, and the call reports failure
  exactly when the list is empty.
\<close>

theorem buildPattern_walk:
  assumes "reach (GHBHistory_ctor hs pl dg upc pb ct) n s"
    and "0 \<le> sint index" and "sint index < uint (historySize s)"
  shows "\<exists>deltas. buildPattern s index key = Some (deltas \<noteq> [], deltas)
           \<and> deltas = chainDeltas s key (unat (patternLength s)) index
           \<and> length deltas \<le> unat (patternLength s)
           \<and> (\<forall>i. i < length deltas \<longrightarrow>
                  linkFollowable s key (chainSlot s key index i)
                  \<and> deltas ! i = addr (history s ! unat (chainSlot s key index i))
                                   - addr (history s ! unat (chainSlot s key index (Suc i))))
           \<and> (length deltas = unat (patternLength s)
                \<or> \<not> linkFollowable s key (chainSlot s key index (length deltas)))"
proof -
  let ?ds = "chainDeltas s key (unat (patternLength s)) index"
  have li: "link_inv s" using reach_inv [OF assms(1) inv_ctor] by (simp add: inv_def)
  have ok: "slot_ok (history s) index"
    using assms(2,3) reach_length [OF assms(1)] by (simp add: slot_ok_int)
  then have rng: "\<not> (sint index < 0 \<or> length (history s) \<le> unat index)"
    by (auto simp add: slot_ok_def)
  have "buildLoop s key index [] = Some ?ds"
    using buildLoop_chain [OF li ok, of key "[]"] by simp
  then have "buildPattern s index key = Some (?ds \<noteq> [], ?ds)"
    using rng by (simp add: buildPattern_def)
  then show ?thesis
    using chainDeltas_length [of s key "unat (patternLength s)" index]
      chainDeltas_nth [of _ s key "unat (patternLength s)" index]
      chainDeltas_stop [of s key "unat (patternLength s)" index]
    by blast
qed

theorem buildPattern_walk_witness:
  "buildPattern (ex_stride ex_fresh) 2 PC = Some (True, [0x40, 0x40])
   \<and> buildPattern (ex_stride ex_fresh) 2 Page = Some (False, [])"
proof -
  have r: "reach (GHBHistory_ctor 16 4 2 True 64 50) 3 (ex_stride ex_fresh)"
    using ex_stride_fresh_reach by (simp add: ex_fresh_def)
  have i: "0 \<le> sint (2 :: int32)" "sint (2 :: int32) < uint (historySize (ex_stride ex_fresh))"
    by (simp_all add: ex_stride_fields ex_fresh_fields)
  have c: "chainDeltas (ex_stride ex_fresh) PC (unat (patternLength (ex_stride ex_fresh))) 2 = [0x40, 0x40]"
    "chainDeltas (ex_stride ex_fresh) Page (unat (patternLength (ex_stride ex_fresh))) 2 = []"
    by (rule ex_stride_chain; simp add: ex_fresh_fields)+
  show ?thesis
    using buildPattern_walk [OF r i, of PC] buildPattern_walk [OF r i, of Page] c by auto
qed

text \<open>
  C10. For a slot index that is negative or not below the size of the history
  buffer, \<open>buildPattern\<close> returns failure with an empty delta list, whatever
  the buffer holds: the answer is the same for every content of the buffer,
  so no slot is read.
\<close>

theorem buildPattern_out_of_range:
  assumes "sint index < 0 \<or> int (length (history s)) \<le> sint index"
  shows "buildPattern s index key = Some (False, [])
         \<and> (\<forall>h. length h = length (history s) \<longrightarrow>
               buildPattern (s\<lparr> history := h \<rparr>) index key = Some (False, []))"
proof -
  have "\<not> slot_ok (history s) index" using assms by (auto simp add: slot_ok_int)
  then have "sint index < 0 \<or> length (history s) \<le> unat index"
    by (auto simp add: slot_ok_def)
  then show ?thesis by (simp add: buildPattern_def)
qed

theorem buildPattern_out_of_range_witness:
  "buildPattern (ex_stride ex_fresh) 16 PC = Some (False, [])
   \<and> buildPattern (ex_stride ex_fresh) (- 1) Page = Some (False, [])
   \<and> buildPattern ((ex_stride ex_fresh)\<lparr> history := replicate 16 GHBEntry_default \<rparr>) 16 PC
        = Some (False, [])"
proof -
  have l: "length (history (ex_stride ex_fresh)) = 16"
    by (simp add: ex_stride_fields ex_fresh_fields)
  have a: "sint (16 :: int32) < 0 \<or> int (length (history (ex_stride ex_fresh))) \<le> sint (16 :: int32)"
    by (simp add: l)
  have b: "sint (- 1 :: int32) < 0 \<or> int (length (history (ex_stride ex_fresh))) \<le> sint (- 1 :: int32)"
    by simp
  show ?thesis
    using buildPattern_out_of_range [OF a, of PC] buildPattern_out_of_range [OF b, of Page] l
    by simp
qed


section \<open>Reset\<close>

lemma reach_config:
  assumes "reach s0 n s" "inv s0"
  shows "historySize s = historySize s0 \<and> patternLength s = patternLength s0
         \<and> degree s = degree s0 \<and> usePC s = usePC s0 \<and> pageBytes s = pageBytes s0
         \<and> confidenceThreshold s = confidenceThreshold s0
         \<and> length (history s) = length (history s0)"
  using assms
proof (induction rule: reach.induct)
  case reach_start
  then show ?case by simp
next
  case (reach_reset n s)
  then show ?case by (simp add: reset_eq)
next
  case (reach_insert n s access slot s')
  have "inv s" using reach_inv [OF reach_insert.hyps(1) reach_insert.prems] .
  from insert_Some [OF this reach_insert.hyps(2)] reach_insert.IH [OF reach_insert.prems]
  show ?case by simp
next
  case (reach_update n s chronological)
  then show ?case by simp
qed

lemma ex_stride_pattern:
  assumes "inv s" "head s = 0" "historySize s = 16" "length (history s) = 16" "pageBytes s = 64"
    "usePC s" "lastIndex s = (\<lambda>_. Map.empty)" "sequenceCounter s = 1" "patternLength s = 4"
  shows "buildPattern (ex_stride s) 2 PC = Some (True, [0x40, 0x40])"
proof -
  have "reach s (Suc (Suc (Suc 0))) (ex_stride s)"
    using ex_stride_reach [OF reach_start assms(1-4)] .
  then have "inv (ex_stride s)" using reach_inv assms(1) by blast
  then have li: "link_inv (ex_stride s)" by (simp add: inv_def)
  have ok: "slot_ok (history (ex_stride s)) 2"
    using assms(4) by (simp add: slot_ok_def ex_stride_fields)
  have "buildLoop (ex_stride s) PC 2 [] = Some [0x40, 0x40]"
    using buildLoop_chain [OF li ok, of PC "[]"] ex_stride_chain(1) [OF assms(2-9)] by simp
  then show ?thesis using assms(4) by (simp add: buildPattern_def ex_stride_fields)
qed

text \<open>
  C9. In every state reachable from a constructed predictor, \<open>reset\<close> gives
  exactly the state the constructor gave: every history entry is the default
  entry, both indices and the pattern table are empty, the write head is 0,
  the filled flag is false and the sequence counter is 1, with the
  configuration unchanged. So every operation behaves after reset as on the
  fresh predictor.
\<close>

theorem reset_is_fresh:
  assumes "reach (GHBHistory_ctor hs pl dg upc pb ct) n s"
  shows "reset s = GHBHistory_ctor hs pl dg upc pb ct
         \<and> (\<forall>i. i < length (history (reset s)) \<longrightarrow> history (reset s) ! i = GHBEntry_default)
         \<and> length (history (reset s)) = length (history s)
         \<and> lastIndex (reset s) = (\<lambda>_. Map.empty)
         \<and> head (reset s) = 0 \<and> \<not> filled (reset s) \<and> sequenceCounter (reset s) = 1
         \<and> patternTable (reset s) = Map.empty
         \<and> (\<forall>a. insert_ghb (reset s) a = insert_ghb (GHBHistory_ctor hs pl dg upc pb ct) a)
         \<and> (\<forall>m t. reach (reset s) m t = reach (GHBHistory_ctor hs pl dg upc pb ct) m t)"
proof -
  let ?c = "GHBHistory_ctor hs pl dg upc pb ct"
  note cfg = reach_config [OF assms inv_ctor]
  have eq: "reset s = ?c"
    by (rule GHBHistory.equality) (simp_all add: reset_eq cfg, simp_all add: GHBHistory_ctor_def)
  have "\<forall>i. i < length (history (reset s)) \<longrightarrow> history (reset s) ! i = GHBEntry_default"
    by (simp add: reset_eq)
  moreover have "length (history (reset s)) = length (history s)"
    "lastIndex (reset s) = (\<lambda>_. Map.empty)"
    "head (reset s) = 0 \<and> \<not> filled (reset s) \<and> sequenceCounter (reset s) = 1"
    "patternTable (reset s) = Map.empty"
    by (simp_all add: reset_eq)
  ultimately show ?thesis using eq by simp
qed

theorem reset_is_fresh_witness:
  "reset (ex_stride ex_fresh) = ex_fresh
   \<and> buildPattern (ex_stride (reset (ex_stride ex_fresh))) 2 PC = Some (True, [0x40, 0x40])
   \<and> buildPattern (ex_stride ex_fresh) 2 PC = Some (True, [0x40, 0x40])"
proof -
  have r: "reach (GHBHistory_ctor 16 4 2 True 64 50) 3 (ex_stride ex_fresh)"
    using ex_stride_fresh_reach by (simp add: ex_fresh_def)
  have e: "reset (ex_stride ex_fresh) = ex_fresh"
    using reset_is_fresh [OF r] by (simp add: ex_fresh_def)
  have "buildPattern (ex_stride ex_fresh) 2 PC = Some (True, [0x40, 0x40])"
    by (rule ex_stride_pattern) (simp_all add: ex_fresh_inv ex_fresh_fields)
  then show ?thesis using e by simp
qed


section \<open>Sequence numbers and stale links\<close>

lemma head_ok:
  assumes "cfg_inv s" "unat (historySize s) \<le> 2 ^ 31"
  shows "slot_ok (history s) (head s)"
proof -
  have lt: "unat (head s) < unat (historySize s)" and len: "length (history s) = unat (historySize s)"
    using assms(1) by (simp_all add: cfg_inv_def)
  have u: "uint (head s) = int (unat (head s))" by (rule uint_nat)
  have n: "unat (head s) < 2147483648" using lt assms(2) by simp
  have lo: "- 2147483648 \<le> uint (head s)" using u by linarith
  have hi: "uint (head s) < 2147483648" using u n by linarith
  have "- (2 ^ 31) \<le> uint (head s)" using lo by simp
  moreover have "uint (head s) < 2 ^ 31" using hi by simp
  ultimately have "signed_take_bit 31 (uint (head s)) = uint (head s)"
    by (rule signed_take_bit_int_eq_self)
  then have "sint (head s) = uint (head s)"
    by (simp add: sint_uint)
  then have "0 \<le> sint (head s)" using u by linarith
  then show ?thesis using lt len by (simp add: slot_ok_def)
qed

lemma ex_small_fields:
  "head ex_small = 0" "historySize ex_small = 2" "length (history ex_small) = 2"
  "pageBytes ex_small = 64" "usePC ex_small" "patternLength ex_small = 4"
  "lastIndex ex_small = (\<lambda>_. Map.empty)" "sequenceCounter ex_small = 1" "\<not> filled ex_small"
  by (simp_all add: ex_small_def GHBHistory_ctor_def)

lemma ex_small_entries:
  "seq (history (ex_stride ex_small) ! 0) = 3" "seq (history (ex_stride ex_small) ! 1) = 2"
  "links (history (ex_stride ex_small) ! 1) PC = \<lparr> prev = 0, prevSeq = 1, keyValue = 0x100, keyValid = True \<rparr>"
  "links (history (ex_stride ex_small) ! 0) PC = \<lparr> prev = 1, prevSeq = 2, keyValue = 0x100, keyValid = True \<rparr>"
  by (simp_all add: ex_small_fields ex_stride_def ex_access_def inserted_def insertedLinks_def insertedIndex_def
      unmapSlot_def wiredLink_def)


lemma ex_stride_reach_any:
  assumes "reach s0 n s" "inv s" "unat (historySize s) \<le> 2 ^ 31"
  shows "reach s0 (Suc (Suc (Suc n))) (ex_stride s)"
proof -
  let ?s1 = "inserted s (ex_access 0)"
  let ?s2 = "inserted ?s1 (ex_access 0x40)"
  have c0: "cfg_inv s" using assms(2) by (simp add: inv_def)
  have ok0: "slot_ok (history s) (head s)" using head_ok [OF c0 assms(3)] .
  have r1: "reach s0 (Suc n) ?s1" and i1: "inv ?s1"
    using reach_inserted [OF assms(1,2) ok0] inv_inserted [OF assms(2) ok0] by simp_all
  have "cfg_inv ?s1" using i1 by (simp add: inv_def)
  then have ok1: "slot_ok (history ?s1) (head ?s1)" using assms(3) by (intro head_ok) simp_all
  have r2: "reach s0 (Suc (Suc n)) ?s2" and i2: "inv ?s2"
    using reach_inserted [OF r1 i1 ok1] inv_inserted [OF i1 ok1] by simp_all
  have "cfg_inv ?s2" using i2 by (simp add: inv_def)
  then have ok2: "slot_ok (history ?s2) (head ?s2)" using assms(3) by (intro head_ok) simp_all
  show ?thesis
    using reach_inserted [OF r2 i2 ok2, of "ex_access 0x80"] by (simp add: ex_stride_def)
qed

lemma ex_small_reach: "reach (GHBHistory_ctor 2 4 2 True 64 50) 3 (ex_stride ex_small)"
proof -
  have "reach ex_small (Suc (Suc (Suc 0))) (ex_stride ex_small)"
  proof (rule ex_stride_reach_any [OF reach_start])
    show "inv ex_small" by (simp add: ex_small_def inv_ctor)
    show "unat (historySize ex_small) \<le> 2 ^ 31" by (simp add: ex_small_fields)
  qed
  then show ?thesis by (simp add: ex_small_def eval_nat_numeral)
qed

section \<open>Prediction from the pattern table\<close>

lemma sort_desc_contract: "sort_contract sort_desc"
proof -
  have "sorted_wrt (\<lambda>a b. \<not> snd a < snd b) (rev (sort_key snd xs))" for xs :: "(int64 \<times> uint32) list"
  proof -
    have "sorted (map snd (sort_key snd xs))" by (rule sorted_sort_key)
    then have "sorted_wrt (\<lambda>a b. snd a \<le> snd b) (sort_key snd xs)"
      by (simp add: sorted_wrt_map)
    then have "sorted_wrt (\<lambda>a b. \<not> snd b < snd a) (sort_key snd xs)"
      by (simp add: not_less)
    then show ?thesis by (simp add: sorted_wrt_rev)
  qed
  then show ?thesis by (simp add: sort_contract_def sort_desc_def)
qed

lemma sorted_head_max:
  assumes "sort_contract srt" "cs \<noteq> []"
  shows "srt cs \<noteq> [] \<and> srt cs ! 0 \<in> set cs \<and> (\<forall>x\<in>set cs. snd x \<le> snd (srt cs ! 0))"
proof -
  have m: "mset (srt cs) = mset cs" and so: "sorted_wrt (\<lambda>a b. \<not> snd a < snd b) (srt cs)"
    using assms(1) by (simp_all add: sort_contract_def)
  have se: "set (srt cs) = set cs" using m by (rule mset_eq_setD)
  then have ne: "srt cs \<noteq> []" using assms(2) by auto
  then obtain y ys where ys: "srt cs = y # ys" by (cases "srt cs") auto
  have "\<forall>x\<in>set ys. \<not> snd y < snd x" using so ys by simp
  then have "\<forall>x\<in>set (srt cs). snd x \<le> snd y" using ys by (auto simp add: not_less)
  then show ?thesis using ys se by auto
qed


lemma reach_table_inv:
  assumes "reach (GHBHistory_ctor hs pl dg upc pb ct) n s"
  shows "table_inv s"
  using reach_inv [OF assms inv_ctor] by (simp add: inv_def)

lemma ex_trained_table:
  "patternTable ex_trained (32, 32) = Some \<lparr> counts = [(32, 1)], total_pe = 1 \<rparr>"
  "patternTable ex_trained (64, 64) = Some \<lparr> counts = [(64, 1), (32, 1)], total_pe = 2 \<rparr>"
  by (simp_all add: ex_trained_def updatePatternTable_def ex_fresh_def GHBHistory_ctor_def
      learn_def PatternEntry_default_def updateLoop.simps)

lemma ex_trained_reach: "reach (GHBHistory_ctor 16 4 2 True 64 50) 0 ex_trained"
  unfolding ex_trained_def ex_fresh_def by (rule reach_update [OF reach_start])

text \<open>
  C4. Every reachable state satisfies \<open>table_inv\<close> (\<open>reach_table_inv\<close>): each
  key of the pattern table has at least one counted delta. In such a state,
  with any sorting routine that meets the contract of \<open>std::sort\<close>,
  \<open>findPatternMatch\<close> fails, with no prediction, exactly when the list has
  fewer than two deltas, the key (second-to-last, last) is not in the table,
  or the key's total is zero; otherwise it returns exactly one delta, and no
  delta of the key's distribution has a greater count.
\<close>

theorem findPatternMatch_max:
  assumes "sort_contract srt" and "table_inv s"
  shows "(\<not> fst (findPatternMatch srt s ch) \<longleftrightarrow>
            length ch < 2
            \<or> patternTable s (ch ! (length ch - 2), last ch) = None
            \<or> totalOf (patternTable s) (ch ! (length ch - 2), last ch) = 0)
         \<and> (\<not> fst (findPatternMatch srt s ch) \<longrightarrow> snd (findPatternMatch srt s ch) = [])
         \<and> (fst (findPatternMatch srt s ch) \<longrightarrow>
               (\<exists>e d c. patternTable s (ch ! (length ch - 2), last ch) = Some e
                   \<and> snd (findPatternMatch srt s ch) = [d]
                   \<and> (d, c) \<in> set (counts e)
                   \<and> (\<forall>x\<in>set (counts e). snd x \<le> c)))"
proof (cases "length ch < 2")
  case True
  then show ?thesis by (simp add: findPatternMatch_def)
next
  case long: False
  let ?key = "(ch ! (length ch - 2), last ch)"
  show ?thesis
  proof (cases "patternTable s ?key")
    case None
    then show ?thesis using long by (simp add: findPatternMatch_def)
  next
    case (Some e)
    show ?thesis
    proof (cases "total_pe e = 0")
      case True
      then show ?thesis using long Some by (simp add: findPatternMatch_def totalOf_def)
    next
      case False
      have "counts e \<noteq> []" using assms(2) Some unfolding table_inv_def by blast
      from sorted_head_max [OF assms(1) this]
      have ne: "srt (counts e) \<noteq> []" and mem: "srt (counts e) ! 0 \<in> set (counts e)"
        and mx: "\<forall>x\<in>set (counts e). snd x \<le> snd (srt (counts e) ! 0)" by simp_all
      have r: "findPatternMatch srt s ch = (True, [fst (srt (counts e) ! 0)])"
        using long Some False ne by (simp add: findPatternMatch_def Let_def)
      have "(fst (srt (counts e) ! 0), snd (srt (counts e) ! 0)) \<in> set (counts e)"
        using mem by simp
      then have "\<exists>d c. snd (findPatternMatch srt s ch) = [d] \<and> (d, c) \<in> set (counts e)
                   \<and> (\<forall>x\<in>set (counts e). snd x \<le> c)"
        using mx r by fastforce
      then show ?thesis using long Some False r by (simp add: totalOf_def)
    qed
  qed
qed

theorem findPatternMatch_max_witness:
  "sort_contract sort_desc \<and> table_inv ex_trained
   \<and> findPatternMatch sort_desc ex_trained [32, 32] = (True, [32])
   \<and> fst (findPatternMatch sort_desc ex_trained [64, 64])
   \<and> findPatternMatch sort_desc ex_trained [64] = (False, [])
   \<and> findPatternMatch sort_desc ex_trained [16, 16] = (False, [])"
proof -
  have ti: "table_inv ex_trained" using reach_table_inv [OF ex_trained_reach] .
  note t = findPatternMatch_max [OF sort_desc_contract ti]
  have a: "fst (findPatternMatch sort_desc ex_trained [32, 32])"
    using t [of "[32, 32]"] by (simp add: ex_trained_table totalOf_def)
  then have "\<exists>d c. snd (findPatternMatch sort_desc ex_trained [32, 32]) = [d]
      \<and> (d, c) \<in> set [(32 :: int64, 1 :: uint32)]"
    using t [of "[32, 32]"] by (simp add: ex_trained_table)
  then have b: "snd (findPatternMatch sort_desc ex_trained [32, 32]) = [32]" by auto
  have c: "fst (findPatternMatch sort_desc ex_trained [64, 64])"
    using t [of "[64, 64]"] by (simp add: ex_trained_table totalOf_def)
  have d: "findPatternMatch sort_desc ex_trained [64] = (False, [])"
    using t [of "[64]"] by (simp add: prod_eq_iff)
  have p: "patternTable ex_trained (16, 16) = None"
    by (simp add: ex_trained_def updatePatternTable_def ex_fresh_def GHBHistory_ctor_def
      learn_def PatternEntry_default_def updateLoop.simps)
  have e: "findPatternMatch sort_desc ex_trained [16, 16] = (False, [])"
    using t [of "[16, 16]"] p by (simp add: prod_eq_iff)
  show ?thesis using sort_desc_contract ti a b c d e by (simp add: prod_eq_iff)
qed


section \<open>Learning: updatePatternTable\<close>

lemma map_of_countsIncr:
  "map_of (countsIncr cs d) d' =
     (if d' = d then Some (case map_of cs d of None \<Rightarrow> 1 | Some c \<Rightarrow> c + 1) else map_of cs d')"
  by (induction cs) (auto split: option.splits)

lemma map_fst_countsIncr:
  "map fst (countsIncr cs d) = (if d \<in> fst ` set cs then map fst cs else map fst cs @ [d])"
proof (induction cs)
  case Nil
  show ?case by simp
next
  case (Cons x cs)
  obtain d' n where x: "x = (d', n)" by (cases x)
  show ?case using Cons by (cases "d' = d") (simp_all add: x)
qed

lemma keys_countsIncr: "fst ` set (countsIncr cs d) = insert d (fst ` set cs)"
proof -
  have "set (map fst (countsIncr cs d)) = insert d (fst ` set cs)"
    unfolding map_fst_countsIncr by auto
  then show ?thesis by simp
qed

lemma learn_countOf:
  "countOf (learn pt key d) key' d' = countOf pt key' d' + (if key' = key \<and> d' = d then 1 else 0)"
  by (simp add: countOf_def learn_def Let_def map_of_countsIncr PatternEntry_default_def
      split: option.splits)

lemma learn_totalOf:
  "totalOf (learn pt key d) key' = totalOf pt key' + (if key' = key then 1 else 0)"
  by (simp add: totalOf_def learn_def Let_def PatternEntry_default_def split: option.splits)

lemma learn_other: "key' \<noteq> key \<Longrightarrow> learn pt key d key' = pt key'"
  by (simp add: learn_def Let_def)

lemma learn_keeps:
  assumes "pt key' = Some e"
  shows "\<exists>e'. learn pt key d key' = Some e'
           \<and> fst ` set (counts e) \<subseteq> fst ` set (counts e')"
proof (cases "key' = key")
  case True
  then have "learn pt key d key' = Some (e\<lparr> counts := countsIncr (counts e) d, total_pe := total_pe e + 1 \<rparr>)"
    using assms by (simp add: learn_def Let_def)
  moreover have "fst ` set (counts e) \<subseteq> fst ` set (countsIncr (counts e) d)"
    unfolding keys_countsIncr by blast
  ultimately show ?thesis by simp
next
  case False
  then show ?thesis using assms by (simp add: learn_def Let_def)
qed

lemma tripleCount_step:
  "i + 2 < length ch \<Longrightarrow>
     tripleCount ch i key d =
       (if (ch ! i, ch ! (i + 1)) = key \<and> ch ! (i + 2) = d then 1 else 0) + tripleCount ch (i + 1) key d"
  by (simp add: tripleCount_def upt_conv_Cons)

lemma tripleCount_end: "\<not> i + 2 < length ch \<Longrightarrow> tripleCount ch i key d = 0"
  by (simp add: tripleCount_def)

lemma keyCount_step:
  "i + 2 < length ch \<Longrightarrow>
     keyCount ch i key = (if (ch ! i, ch ! (i + 1)) = key then 1 else 0) + keyCount ch (i + 1) key"
  by (simp add: keyCount_def upt_conv_Cons)

lemma keyCount_end: "\<not> i + 2 < length ch \<Longrightarrow> keyCount ch i key = 0"
  by (simp add: keyCount_def)

lemma updateLoop_unfold:
  "i + 2 < length ch \<Longrightarrow>
     updateLoop pt ch i = updateLoop (learn pt (ch ! i, ch ! (i + 1)) (ch ! (i + 2))) ch (i + 1)"
  "\<not> i + 2 < length ch \<Longrightarrow> updateLoop pt ch i = pt"
  by (subst updateLoop.simps, simp)+

lemma updateLoop_countOf:
  "countOf (updateLoop pt ch i) key d = countOf pt key d + of_nat (tripleCount ch i key d)"
proof (induction pt ch i rule: updateLoop.induct)
  case (1 pt ch i)
  show ?case
  proof (cases "i + 2 < length ch")
    case True
    then show ?thesis
      using "1.IH" [OF True]
      by (simp add: updateLoop_unfold(1) tripleCount_step learn_countOf)
  next
    case False
    then show ?thesis by (simp add: updateLoop_unfold(2) tripleCount_end)
  qed
qed

lemma updateLoop_totalOf:
  "totalOf (updateLoop pt ch i) key = totalOf pt key + of_nat (keyCount ch i key)"
proof (induction pt ch i rule: updateLoop.induct)
  case (1 pt ch i)
  show ?case
  proof (cases "i + 2 < length ch")
    case True
    then show ?thesis
      using "1.IH" [OF True]
      by (simp add: updateLoop_unfold(1) keyCount_step learn_totalOf)
  next
    case False
    then show ?thesis by (simp add: updateLoop_unfold(2) keyCount_end)
  qed
qed

lemma updateLoop_other:
  "keyCount ch i key = 0 \<Longrightarrow> updateLoop pt ch i key = pt key"
proof (induction pt ch i rule: updateLoop.induct)
  case (1 pt ch i)
  show ?case
  proof (cases "i + 2 < length ch")
    case True
    then have "(ch ! i, ch ! (i + 1)) \<noteq> key" and "keyCount ch (i + 1) key = 0"
      using "1.prems" by (auto simp add: keyCount_step split: if_splits)
    then show ?thesis
      using "1.IH" [OF True] True by (simp add: updateLoop_unfold(1) learn_other)
  next
    case False
    then show ?thesis by (simp add: updateLoop_unfold(2))
  qed
qed

lemma updateLoop_keeps:
  "pt key = Some e \<Longrightarrow>
     \<exists>e'. updateLoop pt ch i key = Some e'
        \<and> fst ` set (counts e) \<subseteq> fst ` set (counts e')"
proof (induction pt ch i arbitrary: e rule: updateLoop.induct)
  case (1 pt ch i)
  show ?case
  proof (cases "i + 2 < length ch")
    case True
    obtain e1 where e1: "learn pt (ch ! i, ch ! (i + 1)) (ch ! (i + 2)) key = Some e1"
      "fst ` set (counts e) \<subseteq> fst ` set (counts e1)"
      using learn_keeps [where pt = pt and key' = key and e = e, OF "1.prems"] by blast
    from "1.IH" [OF True e1(1)] obtain e' where
      "updateLoop (learn pt (ch ! i, ch ! (i + 1)) (ch ! (i + 2))) ch (i + 1) key = Some e'"
      "fst ` set (counts e1) \<subseteq> fst ` set (counts e')" by blast
    then show ?thesis using e1(2) True by (simp add: updateLoop_unfold(1))
  next
    case False
    then show ?thesis using "1.prems" by (simp add: updateLoop_unfold(2))
  qed
qed


lemma unat_add_of_nat:
  fixes a :: uint32
  assumes "unat a + k < 2 ^ 32"
  shows "unat (a + of_nat k) = unat a + k"
proof -
  have k: "k < 2 ^ 32" using assms by simp
  have "unat (of_nat k :: uint32) = k"
    using k by (simp add: unat_of_nat take_bit_nat_eq_self)
  moreover from this have "unat a + unat (of_nat k :: uint32) < 2 ^ LENGTH(32)"
    using assms by simp
  then have "unat (a + of_nat k) = unat a + unat (of_nat k :: uint32)"
    by (simp only: unat_add_lem [THEN iffD1])
  ultimately show ?thesis by simp
qed

lemma train_step:
  "updatePatternTable
     (ex_fresh\<lparr> patternTable := [(1, 1) \<mapsto> \<lparr> counts = [(1, c)], total_pe = c \<rparr>] \<rparr>) [1, 1, 1]
   = ex_fresh\<lparr> patternTable := [(1, 1) \<mapsto> \<lparr> counts = [(1, c + 1)], total_pe = c + 1 \<rparr>] \<rparr>"
  by (simp add: updatePatternTable_def learn_def updateLoop.simps)

lemma train_first:
  "updatePatternTable ex_fresh [1, 1, 1]
   = ex_fresh\<lparr> patternTable := [(1, 1) \<mapsto> \<lparr> counts = [(1, 1)], total_pe = 1 \<rparr>] \<rparr>"
  by (simp add: updatePatternTable_def learn_def PatternEntry_default_def ex_fresh_def GHBHistory_ctor_def updateLoop.simps)

lemma train_n:
  "((\<lambda>s. updatePatternTable s [1, 1, 1]) ^^ Suc n) ex_fresh
   = ex_fresh\<lparr> patternTable :=
       [(1, 1) \<mapsto> \<lparr> counts = [(1, of_nat (Suc n))], total_pe = of_nat (Suc n) \<rparr>] \<rparr>"
proof (induction n)
  case 0
  have "((\<lambda>s. updatePatternTable s [1, 1, 1]) ^^ Suc 0) ex_fresh = updatePatternTable ex_fresh [1, 1, 1]"
    by simp
  moreover have "(of_nat (Suc 0) :: uint32) = 1" by simp
  ultimately show ?case by (simp only: train_first)
next
  case (Suc n)
  have "((\<lambda>s. updatePatternTable s [1, 1, 1]) ^^ Suc (Suc n)) ex_fresh
      = updatePatternTable (((\<lambda>s. updatePatternTable s [1, 1, 1]) ^^ Suc n) ex_fresh) [1, 1, 1]"
    by simp
  also have "\<dots> = ex_fresh\<lparr> patternTable :=
       [(1, 1) \<mapsto> \<lparr> counts = [(1, of_nat (Suc n) + 1)], total_pe = of_nat (Suc n) + 1 \<rparr>] \<rparr>"
    unfolding Suc.IH by (rule train_step)
  finally have f: "((\<lambda>s. updatePatternTable s [1, 1, 1]) ^^ Suc (Suc n)) ex_fresh
      = ex_fresh\<lparr> patternTable :=
       [(1, 1) \<mapsto> \<lparr> counts = [(1, of_nat (Suc n) + 1)], total_pe = of_nat (Suc n) + 1 \<rparr>] \<rparr>" .
  have "(of_nat (Suc (Suc n)) :: uint32) = of_nat (Suc n) + 1" by simp
  then show ?case using f by (simp only:)
qed

lemma reach_funpow:
  "reach s0 n s \<Longrightarrow> reach s0 n (((\<lambda>s. updatePatternTable s ch) ^^ m) s)"
  by (induction m) (simp_all add: reach_update)

lemma ex_saturated_reach: "reach ex_fresh 0 ex_saturated"
proof -
  have e: "((\<lambda>s. updatePatternTable s [1, 1, 1]) ^^ Suc 4294967294) ex_fresh
      = ex_fresh\<lparr> patternTable :=
       [(1, 1) \<mapsto> \<lparr> counts = [(1, of_nat (Suc 4294967294))], total_pe = of_nat (Suc 4294967294) \<rparr>] \<rparr>"
    by (rule train_n)
  have v: "(of_nat (Suc 4294967294) :: uint32) = 0xFFFFFFFF" by simp
  have "reach ex_fresh 0 (((\<lambda>s. updatePatternTable s [1, 1, 1]) ^^ Suc 4294967294) ex_fresh)"
    by (rule reach_funpow [OF reach_start])
  then show ?thesis unfolding e v ex_saturated_def .
qed


text \<open>
  C5, as the code has it. \<open>updatePatternTable\<close> leaves the state as it is for
  fewer than three deltas. In general, for every key and next delta the stored count
  becomes the old count plus the number of consecutive triples of the input
  with that key and next delta, and the key's total becomes the old total
  plus the number of triples with that key, both in 32-bit unsigned
  arithmetic (modulo \<open>2^32\<close>); a key that no triple has keeps its entry
  unchanged; no key and no counted delta is removed; and the rest of the
  state is unchanged. Where the addition does not exceed \<open>2^32 - 1\<close> the
  count grows by exactly that number, so it does not decrease.
\<close>

theorem updatePatternTable_counts:
  "(length ch < 3 \<longrightarrow> updatePatternTable s ch = s)
   \<and> (\<forall>key d. countOf (patternTable (updatePatternTable s ch)) key d
          = countOf (patternTable s) key d + of_nat (tripleCount ch 0 key d))
   \<and> (\<forall>key. totalOf (patternTable (updatePatternTable s ch)) key
          = totalOf (patternTable s) key + of_nat (keyCount ch 0 key))
   \<and> (\<forall>key. keyCount ch 0 key = 0 \<longrightarrow>
          patternTable (updatePatternTable s ch) key = patternTable s key)
   \<and> (\<forall>key e. patternTable s key = Some e \<longrightarrow>
          (\<exists>e'. patternTable (updatePatternTable s ch) key = Some e'
              \<and> fst ` set (counts e) \<subseteq> fst ` set (counts e')))
   \<and> (\<forall>key d. unat (countOf (patternTable s) key d) + tripleCount ch 0 key d < 2 ^ 32 \<longrightarrow>
          unat (countOf (patternTable (updatePatternTable s ch)) key d)
            = unat (countOf (patternTable s) key d) + tripleCount ch 0 key d)
   \<and> history (updatePatternTable s ch) = history s
   \<and> lastIndex (updatePatternTable s ch) = lastIndex s
   \<and> head (updatePatternTable s ch) = head s
   \<and> filled (updatePatternTable s ch) = filled s
   \<and> sequenceCounter (updatePatternTable s ch) = sequenceCounter s"
proof (cases "length ch < 3")
  case True
  then have z: "tripleCount ch 0 key d = 0" "keyCount ch 0 key = 0" for key d
    by (simp_all add: tripleCount_def keyCount_def)
  have e: "updatePatternTable s ch = s" using True by (simp add: updatePatternTable_def)
  have "(\<forall>key d. countOf (patternTable s) key d
          = countOf (patternTable s) key d + of_nat (0 :: nat))
   \<and> (\<forall>key. totalOf (patternTable s) key = totalOf (patternTable s) key + of_nat (0 :: nat))
   \<and> (\<forall>key e. patternTable s key = Some e \<longrightarrow>
          (\<exists>e'. patternTable s key = Some e' \<and> fst ` set (counts e) \<subseteq> fst ` set (counts e')))"
    by simp
  then show ?thesis unfolding e z by simp
next
  case False
  then have pt: "patternTable (updatePatternTable s ch) = updateLoop (patternTable s) ch 0"
    by (simp add: updatePatternTable_def)
  have c: "countOf (patternTable (updatePatternTable s ch)) key d
          = countOf (patternTable s) key d + of_nat (tripleCount ch 0 key d)" for key d
    unfolding pt by (rule updateLoop_countOf)
  have t: "\<forall>key. totalOf (patternTable (updatePatternTable s ch)) key
          = totalOf (patternTable s) key + of_nat (keyCount ch 0 key)"
    unfolding pt by (simp add: updateLoop_totalOf)
  have o: "\<forall>key. keyCount ch 0 key = 0 \<longrightarrow>
          patternTable (updatePatternTable s ch) key = patternTable s key"
    unfolding pt by (simp add: updateLoop_other)
  have k: "\<forall>key e. patternTable s key = Some e \<longrightarrow>
          (\<exists>e'. patternTable (updatePatternTable s ch) key = Some e'
              \<and> fst ` set (counts e) \<subseteq> fst ` set (counts e'))"
  proof (intro allI impI)
    fix key e
    assume "patternTable s key = Some e"
    then show "\<exists>e'. patternTable (updatePatternTable s ch) key = Some e'
              \<and> fst ` set (counts e) \<subseteq> fst ` set (counts e')"
      unfolding pt by (rule updateLoop_keeps)
  qed
  have m: "\<forall>key d. unat (countOf (patternTable s) key d) + tripleCount ch 0 key d < 2 ^ 32 \<longrightarrow>
          unat (countOf (patternTable (updatePatternTable s ch)) key d)
            = unat (countOf (patternTable s) key d) + tripleCount ch 0 key d"
  proof (intro allI impI)
    fix key d
    assume "unat (countOf (patternTable s) key d) + tripleCount ch 0 key d < 2 ^ 32"
    then show "unat (countOf (patternTable (updatePatternTable s ch)) key d)
            = unat (countOf (patternTable s) key d) + tripleCount ch 0 key d"
      unfolding c by (rule unat_add_of_nat)
  qed
  have c': "\<forall>key d. countOf (patternTable (updatePatternTable s ch)) key d
          = countOf (patternTable s) key d + of_nat (tripleCount ch 0 key d)"
    using c by blast
  have f: "length ch < 3 \<longrightarrow> updatePatternTable s ch = s" using False by simp
  have r: "history (updatePatternTable s ch) = history s
   \<and> lastIndex (updatePatternTable s ch) = lastIndex s
   \<and> head (updatePatternTable s ch) = head s
   \<and> filled (updatePatternTable s ch) = filled s
   \<and> sequenceCounter (updatePatternTable s ch) = sequenceCounter s" by simp
  show ?thesis
    by (rule conjI [OF f conjI [OF c' conjI [OF t conjI [OF o conjI [OF k conjI [OF m r]]]]]])
qed

theorem updatePatternTable_counts_witness:
  "countOf (patternTable ex_trained) (64, 64) 64 = 1
   \<and> countOf (patternTable ex_trained) (64, 64) 32 = 1
   \<and> countOf (patternTable ex_trained) (32, 32) 32 = 1
   \<and> totalOf (patternTable ex_trained) (64, 64) = 2
   \<and> updatePatternTable ex_fresh [64, 64] = ex_fresh"
proof -
  note t = updatePatternTable_counts [of "[64, 64, 64, 32, 32, 32]" ex_fresh]
  have z: "countOf (patternTable ex_fresh) key d = 0" "totalOf (patternTable ex_fresh) key = 0" for key d
    by (simp_all add: ex_fresh_def GHBHistory_ctor_def countOf_def totalOf_def)
  have u: "[0 ..< 4] = [0, 1, 2, 3]" by (simp add: upt_rec)
  have a: "countOf (patternTable ex_trained) (64, 64) 64 = 1"
    "countOf (patternTable ex_trained) (64, 64) 32 = 1"
    "countOf (patternTable ex_trained) (32, 32) 32 = 1"
    "totalOf (patternTable ex_trained) (64, 64) = 2"
    using t unfolding ex_trained_def [symmetric] by (simp_all add: z tripleCount_def keyCount_def u)
  have "updatePatternTable ex_fresh [64, 64] = ex_fresh"
    using updatePatternTable_counts [of "[64, 64]" ex_fresh] by simp
  then show ?thesis using a by simp
qed

text \<open>
  The specification says that counts never decrease. In the reachable state
  \<open>ex_saturated\<close> the count of delta 1 under key (1, 1) is \<open>2^32 - 1\<close>; one more
  training with \<open>[1, 1, 1]\<close> makes it, and the key's total, 0.
\<close>

theorem updatePatternTable_counts_counterexample:
  "reach (GHBHistory_ctor 16 4 2 True 64 50) 0 ex_saturated
   \<and> countOf (patternTable ex_saturated) (1, 1) 1 = 0xFFFFFFFF
   \<and> countOf (patternTable (updatePatternTable ex_saturated [1, 1, 1])) (1, 1) 1 = 0
   \<and> totalOf (patternTable (updatePatternTable ex_saturated [1, 1, 1])) (1, 1) = 0
   \<and> countOf (patternTable (updatePatternTable ex_saturated [1, 1, 1])) (1, 1) 1
        < countOf (patternTable ex_saturated) (1, 1) 1"
proof -
  have r: "reach (GHBHistory_ctor 16 4 2 True 64 50) 0 ex_saturated"
    using ex_saturated_reach by (simp add: ex_fresh_def)
  have s: "updatePatternTable ex_saturated [1, 1, 1]
      = ex_fresh\<lparr> patternTable := [(1, 1) \<mapsto> \<lparr> counts = [(1, 0xFFFFFFFF + 1)], total_pe = 0xFFFFFFFF + 1 \<rparr>] \<rparr>"
    unfolding ex_saturated_def by (rule train_step)
  have a: "countOf (patternTable ex_saturated) (1, 1) 1 = 0xFFFFFFFF"
    by (simp add: ex_saturated_def countOf_def)
  have b: "countOf (patternTable (updatePatternTable ex_saturated [1, 1, 1])) (1, 1) 1 = 0"
    "totalOf (patternTable (updatePatternTable ex_saturated [1, 1, 1])) (1, 1) = 0"
    unfolding s by (simp_all add: countOf_def totalOf_def)
  show ?thesis using r a b by simp
qed


section \<open>Address generation\<close>

lemma emitLoop_eq:
  "emitLoop samePage block_addr next_addr predicted addresses =
     addresses @ map (\<lambda>a. (a, 0)) (filter (samePage block_addr) (candidates next_addr predicted))"
  by (induction predicted arbitrary: next_addr addresses) (simp_all add: Let_def)

lemma buildPattern_Some:
  assumes "link_inv s" "slot_ok (history s) index"
  shows "buildPattern s index key =
           Some (chainDeltas s key (unat (patternLength s)) index \<noteq> [],
                 chainDeltas s key (unat (patternLength s)) index)"
proof -
  have "\<not> (sint index < 0 \<or> length (history s) \<le> unat index)"
    using assms(2) by (auto simp add: slot_ok_def)
  moreover have "buildLoop s key index [] = Some (chainDeltas s key (unat (patternLength s)) index)"
    using buildLoop_chain [OF assms, of key "[]"] by simp
  ultimately show ?thesis by (simp add: buildPattern_def)
qed

lemma findPatternMatch_length: "length (snd (findPatternMatch srt s ch)) \<le> 1"
  by (simp add: findPatternMatch_def Let_def split: option.splits)

lemma fallbackPattern_length: "length (fallbackPattern ch) \<le> 1"
  by (simp add: fallbackPattern_def Let_def)

lemma calculatePrefetch_no_pattern:
  assumes "\<not> empty_ghb (historyHelper pf)"
    and "insert_ghb (historyHelper pf)
           \<lparr> acc_addr = blockAddress (pfi_addr pfi),
             acc_pc = (if pf_usePC pf \<and> pfi_pc pfi \<noteq> None then pfi_pc pfi else None) \<rparr>
         = Some (idx, h1)"
    and "\<not> sint idx < 0"
    and "buildPattern h1 idx PC = Some (False, d1)"
    and "buildPattern h1 idx Page = Some (False, d2)"
  shows "calculatePrefetch blockAddress samePage srt pf pfi addresses =
           Some (pf\<lparr> historyHelper := h1 \<rparr>, addresses)"
  unfolding calculatePrefetch_def
  by (simp only: assms Let_def if_False if_True option.case prod.case not_False_eq_True not_True_eq_False)

lemma calculatePrefetch_pattern:
  assumes "\<not> empty_ghb (historyHelper pf)"
    and "insert_ghb (historyHelper pf)
           \<lparr> acc_addr = blockAddress (pfi_addr pfi),
             acc_pc = (if pf_usePC pf \<and> pfi_pc pfi \<noteq> None then pfi_pc pfi else None) \<rparr>
         = Some (idx, h1)"
    and "\<not> sint idx < 0"
    and "buildPattern h1 idx PC = Some (b1, d1)"
    and "(if \<not> b1 then buildPattern h1 idx Page else Some (b1, d1)) = Some (True, ds)"
  shows "calculatePrefetch blockAddress samePage srt pf pfi addresses =
           Some (pf\<lparr> historyHelper := updatePatternTable h1 (rev ds) \<rparr>,
                 emitLoop samePage (blockAddress (pfi_addr pfi)) (blockAddress (pfi_addr pfi))
                   (if \<not> fst (findPatternMatch srt (updatePatternTable h1 (rev ds)) (rev ds))
                    then fallbackPattern (rev ds)
                    else snd (findPatternMatch srt (updatePatternTable h1 (rev ds)) (rev ds)))
                   addresses)"
proof -
  let ?p = "(if \<not> fst (findPatternMatch srt (updatePatternTable h1 (rev ds)) (rev ds))
                    then fallbackPattern (rev ds)
                    else snd (findPatternMatch srt (updatePatternTable h1 (rev ds)) (rev ds)))"
  have e: "(if ?p = [] then Some (pf\<lparr> historyHelper := updatePatternTable h1 (rev ds) \<rparr>, addresses)
           else Some (pf\<lparr> historyHelper := updatePatternTable h1 (rev ds) \<rparr>,
                  emitLoop samePage (blockAddress (pfi_addr pfi)) (blockAddress (pfi_addr pfi)) ?p addresses))
         = Some (pf\<lparr> historyHelper := updatePatternTable h1 (rev ds) \<rparr>,
                  emitLoop samePage (blockAddress (pfi_addr pfi)) (blockAddress (pfi_addr pfi)) ?p addresses)"
    by (cases "?p = []") simp_all
  show ?thesis
    unfolding calculatePrefetch_def
    by (simp only: assms Let_def if_False if_True option.case prod.case not_False_eq_True
        not_True_eq_False e)
qed

lemma calculatePrefetch_result:
  assumes iv: "inv (historyHelper pf)" and sz: "unat (historySize (historyHelper pf)) \<le> 2 ^ 31"
  shows "\<exists>pf' predicted.
           calculatePrefetch blockAddress samePage srt pf pfi addresses =
             Some (pf', emitLoop samePage (blockAddress (pfi_addr pfi)) (blockAddress (pfi_addr pfi))
                          predicted addresses)
           \<and> length predicted \<le> 1"
proof -
  let ?h = "historyHelper pf"
  let ?blk = "blockAddress (pfi_addr pfi)"
  let ?acc = "\<lparr> acc_addr = ?blk,
                 acc_pc = (if pf_usePC pf \<and> pfi_pc pfi \<noteq> None then pfi_pc pfi else None) \<rparr>"
  let ?h1 = "inserted ?h ?acc"
  let ?m = "unat (patternLength ?h1)"
  have ci: "cfg_inv ?h" using iv by (simp add: inv_def)
  have ne: "\<not> empty_ghb ?h" using ci by (simp add: empty_ghb_def cfg_inv_def)
  have ok: "slot_ok (history ?h) (head ?h)" using head_ok [OF ci sz] .
  have ins: "insert_ghb ?h ?acc = Some (head ?h, ?h1)" using insert_char [OF iv ok] .
  have pos: "\<not> sint (head ?h) < 0" using ok by (simp add: slot_ok_def)
  have li: "link_inv ?h1" using inv_inserted [OF iv ok, of ?acc] by (simp add: inv_def)
  have ok1: "slot_ok (history ?h1) (head ?h)" using ok by (simp only: slot_ok_inserted)
  note bp = buildPattern_Some [OF li ok1]
  let ?pc = "chainDeltas ?h1 PC ?m (head ?h)" and ?pg = "chainDeltas ?h1 Page ?m (head ?h)"
  show ?thesis
  proof (cases "?pc = [] \<and> ?pg = []")
    case True
    have b1: "buildPattern ?h1 (head ?h) PC = Some (False, ?pc)"
      and b2: "buildPattern ?h1 (head ?h) Page = Some (False, ?pg)"
      using True bp [of PC] bp [of Page] by simp_all
    have "calculatePrefetch blockAddress samePage srt pf pfi addresses =
        Some (pf\<lparr> historyHelper := ?h1 \<rparr>, emitLoop samePage ?blk ?blk [] addresses)"
      using calculatePrefetch_no_pattern
        [where blockAddress = blockAddress and pf = pf and pfi = pfi, OF ne ins pos b1 b2] by simp
    then show ?thesis by (intro exI [of _ "pf\<lparr> historyHelper := ?h1 \<rparr>"] exI [of _ "[]"]) simp
  next
    case False
    define ds where "ds = (if ?pc \<noteq> [] then ?pc else ?pg)"
    have second: "(if \<not> (?pc \<noteq> []) then buildPattern ?h1 (head ?h) Page else Some (?pc \<noteq> [], ?pc))
        = Some (True, ds)"
      using False bp [of Page] by (auto simp add: ds_def)
    let ?ch = "rev ds"
    let ?h2 = "updatePatternTable ?h1 ?ch"
    let ?p = "(if \<not> fst (findPatternMatch srt ?h2 ?ch) then fallbackPattern ?ch
               else snd (findPatternMatch srt ?h2 ?ch))"
    have pl: "length ?p \<le> 1"
      using findPatternMatch_length [of srt ?h2 ?ch] fallbackPattern_length [of ?ch]
      by (cases "fst (findPatternMatch srt ?h2 ?ch)") simp_all
    from calculatePrefetch_pattern
        [where blockAddress = blockAddress and pf = pf and pfi = pfi, OF ne ins pos bp [of PC] second] pl
    show ?thesis by blast
  qed
qed


lemma candidates_length: "length (candidates a ds) = length (filter (\<lambda>d. d \<noteq> 0) ds)"
  by (induction ds arbitrary: a) simp_all

lemma candidates_nth:
  "i < length (candidates a ds) \<Longrightarrow>
     candidates a ds ! i = a + sum_list (take (Suc i) (filter (\<lambda>d. d \<noteq> 0) ds))"
proof (induction ds arbitrary: a i)
  case Nil
  then show ?case by simp
next
  case (Cons d ds)
  show ?case
  proof (cases "d = 0")
    case True
    then show ?thesis using Cons by simp
  next
    case False
    show ?thesis
    proof (cases i)
      case 0
      then show ?thesis using False by simp
    next
      case (Suc j)
      then have "j < length (candidates (a + d) ds)" using Cons.prems False by simp
      from Cons.IH [OF this] show ?thesis using False Suc by (simp add: add.assoc)
    qed
  qed
qed

lemma max1_le:
  fixes hs :: uint32
  assumes "unat hs < 2 ^ 31"
  shows "unat (max 1 hs) \<le> 2 ^ 31"
  using assms by (simp add: max_def)

lemma calculatePrefetch_explicit:
  assumes iv: "inv (historyHelper pf)" and sz: "unat (historySize (historyHelper pf)) \<le> 2 ^ 31"
  shows "\<exists>idx h1 b1 d1 b2 ds.
           insert_ghb (historyHelper pf)
               \<lparr> acc_addr = blockAddress (pfi_addr pfi),
                 acc_pc = (if pf_usePC pf \<and> pfi_pc pfi \<noteq> None then pfi_pc pfi else None) \<rparr>
             = Some (idx, h1)
           \<and> 0 \<le> sint idx
           \<and> buildPattern h1 idx PC = Some (b1, d1)
           \<and> (if \<not> b1 then buildPattern h1 idx Page else Some (b1, d1)) = Some (b2, ds)
           \<and> calculatePrefetch blockAddress samePage srt pf pfi addresses =
               (if \<not> b2 then Some (pf\<lparr> historyHelper := h1 \<rparr>, addresses)
                else Some (pf\<lparr> historyHelper := updatePatternTable h1 (rev ds) \<rparr>,
                       addresses @ map (\<lambda>a. (a, 0))
                         (filter (samePage (blockAddress (pfi_addr pfi)))
                            (candidates (blockAddress (pfi_addr pfi))
                               (if \<not> fst (findPatternMatch srt (updatePatternTable h1 (rev ds)) (rev ds))
                                then fallbackPattern (rev ds)
                                else snd (findPatternMatch srt (updatePatternTable h1 (rev ds)) (rev ds)))))))"
proof -
  let ?h = "historyHelper pf"
  let ?blk = "blockAddress (pfi_addr pfi)"
  let ?acc = "\<lparr> acc_addr = ?blk,
                 acc_pc = (if pf_usePC pf \<and> pfi_pc pfi \<noteq> None then pfi_pc pfi else None) \<rparr>"
  let ?h1 = "inserted ?h ?acc"
  let ?m = "unat (patternLength ?h1)"
  have ci: "cfg_inv ?h" using iv by (simp add: inv_def)
  have ne: "\<not> empty_ghb ?h" using ci by (simp add: empty_ghb_def cfg_inv_def)
  have ok: "slot_ok (history ?h) (head ?h)" using head_ok [OF ci sz] .
  have ins: "insert_ghb ?h ?acc = Some (head ?h, ?h1)" using insert_char [OF iv ok] .
  have pos: "\<not> sint (head ?h) < 0" using ok by (simp add: slot_ok_def)
  then have pos': "0 \<le> sint (head ?h)" by simp
  have li: "link_inv ?h1" using inv_inserted [OF iv ok, of ?acc] by (simp add: inv_def)
  have ok1: "slot_ok (history ?h1) (head ?h)" using ok by (simp only: slot_ok_inserted)
  note bp = buildPattern_Some [OF li ok1]
  let ?pc = "chainDeltas ?h1 PC ?m (head ?h)" and ?pg = "chainDeltas ?h1 Page ?m (head ?h)"
  show ?thesis
  proof (cases "?pc = [] \<and> ?pg = []")
    case True
    have b1: "buildPattern ?h1 (head ?h) PC = Some (False, ?pc)"
      and b2: "buildPattern ?h1 (head ?h) Page = Some (False, ?pg)"
      using True bp [of PC] bp [of Page] by simp_all
    have second: "(if \<not> False then buildPattern ?h1 (head ?h) Page else Some (False, ?pc))
        = Some (False, ?pg)" using b2 by simp
    have c: "calculatePrefetch blockAddress samePage srt pf pfi addresses =
        Some (pf\<lparr> historyHelper := ?h1 \<rparr>, addresses)"
      using calculatePrefetch_no_pattern
        [where blockAddress = blockAddress and pf = pf and pfi = pfi, OF ne ins pos b1 b2] .
    show ?thesis
      apply (rule exI [of _ "head ?h"], rule exI [of _ ?h1], rule exI [of _ False],
          rule exI [of _ ?pc], rule exI [of _ False], rule exI [of _ ?pg])
      using ins pos' b1 second c by simp
  next
    case False
    define ds where "ds = (if ?pc \<noteq> [] then ?pc else ?pg)"
    have second: "(if \<not> (?pc \<noteq> []) then buildPattern ?h1 (head ?h) Page else Some (?pc \<noteq> [], ?pc))
        = Some (True, ds)"
      using False bp [of Page] by (auto simp add: ds_def)
    note c = calculatePrefetch_pattern
        [where blockAddress = blockAddress and pf = pf and pfi = pfi and samePage = samePage
           and srt = srt and addresses = addresses, OF ne ins pos bp [of PC] second,
         unfolded emitLoop_eq]
    show ?thesis
      apply (rule exI [of _ "head ?h"], rule exI [of _ ?h1], rule exI [of _ "?pc \<noteq> []"],
          rule exI [of _ ?pc], rule exI [of _ True], rule exI [of _ ds])
      using ins pos' bp [of PC] second c by simp
  qed
qed


text \<open>
  C7. The loop at the end of \<open>calculatePrefetch\<close> appends, in order, the
  candidates that are on the page of the block address, each with priority 0
  (the value the source passes); the candidates are the running sums of the
  non-zero predicted deltas starting from the given address, one per non-zero
  delta. For a prefetcher whose history helper is in a reachable state (with
  a capacity below \<open>2^31\<close>, so that slots fit \<open>int32_t\<close>), \<open>calculatePrefetch\<close>
  returns: the insertion of the block-aligned access returns a slot, the
  pattern is built from that slot for the instruction pointer and, if that
  gives nothing, for the page; without a pattern the output is unchanged;
  with a pattern the table is trained on the reversed deltas, the predicted
  deltas are those of \<open>findPatternMatch\<close> or else of \<open>fallbackPattern\<close>, and
  the output is the given output followed by the same-page candidates of
  exactly these deltas, starting from the block address. So everything
  appended is on the page of the block address and has priority 0.
\<close>

theorem calculatePrefetch_same_page:
  assumes "reach (GHBHistory_ctor hs pl dg upc pb ct) n (historyHelper pf)" and "unat hs < 2 ^ 31"
  shows "(\<forall>block next predicted out.
            emitLoop samePage block next predicted out =
              out @ map (\<lambda>a. (a, 0)) (filter (samePage block) (candidates next predicted)))
         \<and> (\<forall>a ds. length (candidates a ds) = length (filter (\<lambda>d. d \<noteq> 0) ds)
                \<and> (\<forall>i. i < length (candidates a ds) \<longrightarrow>
                       candidates a ds ! i = a + sum_list (take (Suc i) (filter (\<lambda>d. d \<noteq> 0) ds))))
         \<and> (\<exists>idx h1 b1 d1 b2 ds.
               insert_ghb (historyHelper pf)
                   \<lparr> acc_addr = blockAddress (pfi_addr pfi),
                     acc_pc = (if pf_usePC pf \<and> pfi_pc pfi \<noteq> None then pfi_pc pfi else None) \<rparr>
                 = Some (idx, h1)
               \<and> 0 \<le> sint idx
               \<and> buildPattern h1 idx PC = Some (b1, d1)
               \<and> (if \<not> b1 then buildPattern h1 idx Page else Some (b1, d1)) = Some (b2, ds)
               \<and> calculatePrefetch blockAddress samePage srt pf pfi addresses =
                   (if \<not> b2 then Some (pf\<lparr> historyHelper := h1 \<rparr>, addresses)
                    else Some (pf\<lparr> historyHelper := updatePatternTable h1 (rev ds) \<rparr>,
                           addresses @ map (\<lambda>a. (a, 0))
                             (filter (samePage (blockAddress (pfi_addr pfi)))
                                (candidates (blockAddress (pfi_addr pfi))
                                   (if \<not> fst (findPatternMatch srt (updatePatternTable h1 (rev ds)) (rev ds))
                                    then fallbackPattern (rev ds)
                                    else snd (findPatternMatch srt (updatePatternTable h1 (rev ds)) (rev ds))))))))
         \<and> (\<forall>pf' out. calculatePrefetch blockAddress samePage srt pf pfi addresses = Some (pf', out) \<longrightarrow>
                take (length addresses) out = addresses
                \<and> (\<forall>x\<in>set (drop (length addresses) out).
                       samePage (blockAddress (pfi_addr pfi)) (fst x) \<and> snd x = 0))"
proof -
  have iv: "inv (historyHelper pf)" using reach_inv [OF assms(1) inv_ctor] .
  have "historySize (historyHelper pf) = max 1 hs"
    using reach_config [OF assms(1) inv_ctor] by (simp add: GHBHistory_ctor_def)
  then have sz: "unat (historySize (historyHelper pf)) \<le> 2 ^ 31"
    using max1_le [OF assms(2)] by simp
  have a: "\<forall>block next predicted out.
            emitLoop samePage block next predicted out =
              out @ map (\<lambda>a. (a, 0)) (filter (samePage block) (candidates next predicted))"
    by (simp add: emitLoop_eq)
  have b: "\<forall>a ds. length (candidates a ds) = length (filter (\<lambda>d. d \<noteq> 0) ds)
                \<and> (\<forall>i. i < length (candidates a ds) \<longrightarrow>
                       candidates a ds ! i = a + sum_list (take (Suc i) (filter (\<lambda>d. d \<noteq> 0) ds)))"
    using candidates_length candidates_nth by blast
  note c = calculatePrefetch_explicit [OF iv sz, of blockAddress pfi samePage srt addresses]
  obtain pf0 predicted where r: "calculatePrefetch blockAddress samePage srt pf pfi addresses =
             Some (pf0, emitLoop samePage (blockAddress (pfi_addr pfi)) (blockAddress (pfi_addr pfi))
                          predicted addresses)"
    using calculatePrefetch_result [OF iv sz, of blockAddress samePage srt pfi addresses] by blast
  have d: "\<forall>pf' out. calculatePrefetch blockAddress samePage srt pf pfi addresses = Some (pf', out) \<longrightarrow>
                take (length addresses) out = addresses
                \<and> (\<forall>x\<in>set (drop (length addresses) out).
                       samePage (blockAddress (pfi_addr pfi)) (fst x) \<and> snd x = 0)"
    unfolding r emitLoop_eq by auto
  show ?thesis by (rule conjI [OF a conjI [OF b conjI [OF c d]]])
qed


lemma ex_stride_pc_entries:
  assumes "head s = 0" "historySize s = 16" "length (history s) = 16"
    "usePC s" "lastIndex s = (\<lambda>_. Map.empty)" "sequenceCounter s = 1"
  shows "addr (history (ex_stride s) ! 2) = 0x80" "addr (history (ex_stride s) ! 1) = 0x40"
    "addr (history (ex_stride s) ! 0) = 0"
    "seq (history (ex_stride s) ! 1) = 2" "seq (history (ex_stride s) ! 0) = 1"
    "links (history (ex_stride s) ! 2) PC = \<lparr> prev = 1, prevSeq = 2, keyValue = 0x100, keyValid = True \<rparr>"
    "links (history (ex_stride s) ! 1) PC = \<lparr> prev = 0, prevSeq = 1, keyValue = 0x100, keyValid = True \<rparr>"
    "links (history (ex_stride s) ! 0) PC = \<lparr> prev = - 1, prevSeq = 0, keyValue = 0x100, keyValid = True \<rparr>"
  using assms
  by (simp_all add: ex_stride_def ex_access_def inserted_def insertedLinks_def insertedIndex_def
      unmapSlot_def wiredLink_def)

lemma ex_page4k_reach: "reach (GHBHistory_ctor 16 4 2 True 4096 50) 2 ex_page4k"
proof -
  let ?c = "GHBHistory_ctor 16 4 2 True 4096 50"
  have sz: "unat (historySize ?c) \<le> 2 ^ 31" by (simp add: GHBHistory_ctor_def)
  have c0: "cfg_inv ?c" using inv_ctor [of 16 4 2 True 4096 50] by (simp add: inv_def)
  have ok0: "slot_ok (history ?c) (head ?c)" using head_ok [OF c0 sz] .
  have r1: "reach ?c (Suc 0) (inserted ?c (ex_access 0))"
    using reach_inserted [OF reach_start inv_ctor ok0] .
  have i1: "inv (inserted ?c (ex_access 0))" using inv_inserted [OF inv_ctor ok0] .
  then have "cfg_inv (inserted ?c (ex_access 0))" by (simp add: inv_def)
  then have ok1: "slot_ok (history (inserted ?c (ex_access 0))) (head (inserted ?c (ex_access 0)))"
    using sz by (intro head_ok) simp_all
  show ?thesis
    using reach_inserted [OF r1 i1 ok1, of "ex_access 0x40"]
    by (simp add: ex_page4k_def eval_nat_numeral)
qed

lemma ex_pf_eval:
  "calculatePrefetch ex_blockAddress ex_samePage sort_desc ex_pf
     \<lparr> pfi_addr = 0x85, pfi_pc = Some 0x100 \<rparr> []
   = Some (ex_pf\<lparr> historyHelper := ex_stride (GHBHistory_ctor 16 4 2 True 4096 50) \<rparr>, [(0xC0, 0)])"
proof -
  let ?c = "GHBHistory_ctor 16 4 2 True 4096 50"
  let ?pfi = "\<lparr> pfi_addr = 0x85, pfi_pc = Some 0x100 \<rparr>"
  let ?h1 = "ex_stride ?c"
  have f: "head ?c = 0" "historySize ?c = 16" "length (history ?c) = 16" "usePC ?c"
    "lastIndex ?c = (\<lambda>_. Map.empty)" "sequenceCounter ?c = 1" "patternLength ?c = 4"
    "patternTable ?c = Map.empty"
    by (simp_all add: GHBHistory_ctor_def)
  have iv: "inv ex_page4k" using reach_inv [OF ex_page4k_reach inv_ctor] .
  have hd: "head ex_page4k = 2" by (simp add: ex_page4k_def f)
  have ok: "slot_ok (history ex_page4k) (head ex_page4k)"
    unfolding hd by (simp add: slot_ok_def ex_page4k_def f)
  have acc: "\<lparr> acc_addr = ex_blockAddress (pfi_addr ?pfi),
               acc_pc = (if pf_usePC ex_pf \<and> pfi_pc ?pfi \<noteq> None then pfi_pc ?pfi else None) \<rparr>
             = ex_access 0x80"
    by (simp add: ex_blockAddress_def ex_access_def ex_pf_def)
  have h1: "inserted ex_page4k (ex_access 0x80) = ?h1" by (simp add: ex_stride_def ex_page4k_def)
  have ins: "insert_ghb (historyHelper ex_pf)
           \<lparr> acc_addr = ex_blockAddress (pfi_addr ?pfi),
             acc_pc = (if pf_usePC ex_pf \<and> pfi_pc ?pfi \<noteq> None then pfi_pc ?pfi else None) \<rparr>
         = Some (2, ?h1)"
    unfolding acc using insert_char [OF iv ok, of "ex_access 0x80"] by (simp add: ex_pf_def hd h1)
  have ne: "\<not> empty_ghb (historyHelper ex_pf)"
    by (simp add: ex_pf_def empty_ghb_def ex_page4k_def f)
  have pos: "\<not> sint (2 :: int32) < 0" by simp
  have li: "link_inv ?h1" using inv_inserted [OF iv ok, of "ex_access 0x80"] by (simp add: inv_def h1)
  have ok1: "slot_ok (history ?h1) 2" by (simp add: slot_ok_def ex_stride_fields f)
  have ch: "chainDeltas ?h1 PC (unat (patternLength ?h1)) 2 = [0x40, 0x40]"
    using ex_stride_pc_entries [OF f(1-6)]
    by (simp add: ex_stride_fields f chainDeltas_numeral linkFollowable_def)
  have bp: "buildPattern ?h1 2 PC = Some (True, [0x40, 0x40])"
    using buildPattern_Some [OF li ok1, of PC] by (simp add: ch)
  have second: "(if \<not> True then buildPattern ?h1 2 Page else Some (True, [0x40, 0x40 :: int64]))
      = Some (True, [0x40, 0x40])" by simp
  have pt: "patternTable ?h1 = Map.empty" by (simp add: ex_stride_def f)
  have up: "updatePatternTable ?h1 (rev [0x40, 0x40]) = ?h1" by (simp add: updatePatternTable_def)
  have fd: "findPatternMatch sort_desc ?h1 (rev [0x40, 0x40]) = (False, [])"
    by (simp add: findPatternMatch_def pt)
  have fb: "fallbackPattern (rev [0x40, 0x40 :: int64]) = [0x40]" by (simp add: fallbackPattern_def)
  have em: "emitLoop ex_samePage (ex_blockAddress (pfi_addr ?pfi)) (ex_blockAddress (pfi_addr ?pfi))
      [0x40] [] = [(0xC0, 0)]"
    by (simp add: ex_blockAddress_def ex_samePage_def)
  show ?thesis
    using calculatePrefetch_pattern
      [where blockAddress = ex_blockAddress and pf = ex_pf and pfi = ?pfi and samePage = ex_samePage
         and srt = sort_desc and addresses = "[]", OF ne ins pos bp second]
    unfolding up fd fb by (simp only: fst_conv snd_conv not_False_eq_True if_True em)
qed

theorem calculatePrefetch_same_page_witness:
  "calculatePrefetch ex_blockAddress ex_samePage sort_desc ex_pf
     \<lparr> pfi_addr = 0x85, pfi_pc = Some 0x100 \<rparr> []
   = Some (ex_pf\<lparr> historyHelper := ex_stride (GHBHistory_ctor 16 4 2 True 4096 50) \<rparr>, [(0xC0, 0)])
   \<and> ex_samePage (ex_blockAddress 0x85) 0xC0
   \<and> emitLoop ex_samePage 0 0xFC0 [0x20, 0, 0x20, 0x20] [] = [(0xFE0, 0)]"
proof -
  have r: "reach (GHBHistory_ctor 16 4 2 True 4096 50) 2 (historyHelper ex_pf)"
    using ex_page4k_reach by (simp add: ex_pf_def)
  have sz: "unat (16 :: uint32) < 2 ^ 31" by simp
  note t = calculatePrefetch_same_page [OF r sz, where samePage = ex_samePage
      and blockAddress = ex_blockAddress and srt = sort_desc
      and pfi = "\<lparr> pfi_addr = 0x85, pfi_pc = Some 0x100 \<rparr>" and addresses = "[]"]
  have a: "ex_samePage (ex_blockAddress 0x85) 0xC0"
    using t ex_pf_eval by simp
  have b: "emitLoop ex_samePage 0 0xFC0 [0x20, 0, 0x20, 0x20] [] = [(0xFE0, 0)]"
    using t by (simp add: ex_samePage_def)
  show ?thesis using ex_pf_eval a b by simp
qed


section \<open>Zero capacity\<close>

lemma evict_head:
  "removeIndexMappings t slot = Some s1 \<Longrightarrow> head s1 = head t \<and> length (history s1) = length (history t)"
  by (auto simp add: removeIndexMappings_def split: option.splits prod.splits)

lemma insert_slot_nonneg:
  assumes "historySize t \<noteq> 0" "insert_ghb t a = Some (slot, t')"
  shows "slot = head t \<and> 0 \<le> sint slot"
proof -
  obtain s1 where s1: "(if filled t then evictIndex t (head t) else Some t) = Some s1"
    using assms by (cases "if filled t then evictIndex t (head t) else Some t")
      (simp_all add: insert_ghb_def)
  have h1: "head s1 = head t"
    using s1 evict_head [of t "head t" s1] by (auto simp add: evictIndex_def split: if_splits)
  obtain entry where e: "entryAt (history s1) (head s1) = Some entry"
    using assms s1 by (cases "entryAt (history s1) (head s1)") (simp_all add: insert_ghb_def Let_def)
  then have ok: "slot_ok (history s1) (head s1)"
    by (simp add: entryAt_def split: if_splits)
  have "slot = head s1"
    using assms s1 e
    by (simp add: insert_ghb_def Let_def split: option.splits if_splits)
  then show ?thesis using ok h1 by (simp add: slot_ok_def)
qed

lemma insert_sentinel:
  assumes "insert_ghb t a = Some (slot, t')"
  shows "slot = - 1 \<longleftrightarrow> historySize t = 0"
proof (cases "historySize t = 0")
  case True
  then show ?thesis using assms by (simp add: insert_ghb_def)
next
  case False
  from insert_slot_nonneg [OF False assms] have "0 \<le> sint slot" by blast
  then have "slot \<noteq> - 1" by auto
  then show ?thesis using False by simp
qed

lemma single_slot_zero:
  fixes p :: int32
  assumes "unat p < 1"
  shows "p = 0"
  using assms by (simp add: unat_eq_0)

lemma single_slot_links:
  assumes iv: "inv h" and one: "historySize h = 1"
  shows "prev (insertedLinks h a k) = - 1"
proof -
  have ci: "cfg_inv h" and ii: "index_inv h" using iv by (simp_all add: inv_def)
  have len: "length (history h) = 1" using ci one by (simp add: cfg_inv_def)
  have hd0: "head h = 0" using ci one by (intro single_slot_zero) (simp add: cfg_inv_def)
  have none: "unmapSlot (lastIndex h) (head h) k v = None" for k v
  proof (cases "lastIndex h k v")
    case None
    then show ?thesis by (simp add: unmapSlot_def)
  next
    case (Some p)
    then have "slot_ok (history h) p" using index_invD [OF ii] by blast
    then have "p = 0" using len by (intro single_slot_zero) (simp add: slot_ok_def)
    then show ?thesis using Some hd0 by (simp add: unmapSlot_def)
  qed
  show ?thesis
    by (cases k) (simp_all add: insertedLinks_def none LinkInfo_default_def)
qed

lemma single_slot_no_chain:
  assumes iv: "inv h" and one: "historySize h = 1"
  shows "chainDeltas (inserted h a) k m (head h) = []"
proof (cases m)
  case 0
  then show ?thesis by simp
next
  case (Suc m')
  have "unat (head h) < length (history h)" using iv by (simp add: inv_def cfg_inv_def)
  then have "links (history (inserted h a) ! unat (head h)) k = insertedLinks h a k"
    by (simp add: inserted_nth_head)
  then have "\<not> linkFollowable (inserted h a) k (head h)"
    using single_slot_links [OF iv one, of a k] by (simp add: linkFollowable_def)
  then show ?thesis using Suc by simp
qed

lemma single_slot_no_candidates:
  assumes iv: "inv (historyHelper pf)" and one: "historySize (historyHelper pf) = 1"
  shows "\<exists>pf'. calculatePrefetch blockAddress samePage srt pf pfi addresses = Some (pf', addresses)"
proof -
  let ?h = "historyHelper pf"
  let ?acc = "\<lparr> acc_addr = blockAddress (pfi_addr pfi),
                 acc_pc = (if pf_usePC pf \<and> pfi_pc pfi \<noteq> None then pfi_pc pfi else None) \<rparr>"
  let ?h1 = "inserted ?h ?acc"
  have ci: "cfg_inv ?h" using iv by (simp add: inv_def)
  have sz: "unat (historySize ?h) \<le> 2 ^ 31" using one by simp
  have ne: "\<not> empty_ghb ?h" using one by (simp add: empty_ghb_def)
  have ok: "slot_ok (history ?h) (head ?h)" using head_ok [OF ci sz] .
  have ins: "insert_ghb ?h ?acc = Some (head ?h, ?h1)" using insert_char [OF iv ok] .
  have pos: "\<not> sint (head ?h) < 0" using ok by (simp add: slot_ok_def)
  have li: "link_inv ?h1" using inv_inserted [OF iv ok, of ?acc] by (simp add: inv_def)
  have ok1: "slot_ok (history ?h1) (head ?h)" using ok by (simp only: slot_ok_inserted)
  have bp: "buildPattern ?h1 (head ?h) k = Some (False, [])" for k
    using buildPattern_Some [OF li ok1, of k] single_slot_no_chain [OF iv one] by simp
  from calculatePrefetch_no_pattern
    [where blockAddress = blockAddress and pf = pf and pfi = pfi, OF ne ins pos bp bp]
  show ?thesis by blast
qed


lemma max1_one:
  fixes hs :: uint32
  assumes "hs \<le> 1"
  shows "max 1 hs = 1"
  using assms by (simp add: max_def)

text \<open>
  C3, as the code has it. The constructor clamps the history capacity to at least 1, so
  in every reachable state the capacity is \<open>max 1 history_size\<close>, \<open>empty()\<close>
  is false, and \<open>insert\<close> returns the write head, a non-negative slot, never
  the sentinel (and it does return when the capacity is below \<open>2^31\<close>, so
  that slots fit \<open>int32_t\<close>). In any state whatever, \<open>insert\<close> returns the sentinel \<open>-1\<close>
  exactly when the \<open>historySize\<close> field is zero, and then \<open>empty()\<close> holds,
  the state is unchanged and \<open>calculatePrefetch\<close> produces no address; no
  constructed predictor is in such a state. A predictor constructed with
  capacity zero or one has a single slot, and \<open>calculatePrefetch\<close> never
  produces a candidate address for it.
\<close>

theorem zero_capacity_clamped:
  assumes "reach (GHBHistory_ctor hs pl dg upc pb ct) n s"
  shows "historySize s = max 1 hs \<and> historySize s \<noteq> 0 \<and> \<not> empty_ghb s
    \<and> (\<forall>a slot s'. insert_ghb s a = Some (slot, s') \<longrightarrow>
          slot = head s \<and> 0 \<le> sint slot \<and> slot \<noteq> - 1)
    \<and> (unat hs < 2 ^ 31 \<longrightarrow> (\<forall>a. insert_ghb s a = Some (head s, inserted s a)))
    \<and> (\<forall>t a slot t'. insert_ghb t a = Some (slot, t') \<longrightarrow> (slot = - 1 \<longleftrightarrow> historySize t = 0))
    \<and> (\<forall>t a. historySize t = 0 \<longrightarrow> empty_ghb t \<and> insert_ghb t a = Some (- 1, t))
    \<and> (\<forall>pf pfi addresses blockAddress samePage srt. historySize (historyHelper pf) = 0 \<longrightarrow>
          calculatePrefetch blockAddress samePage srt pf pfi addresses = Some (pf, addresses))
    \<and> (hs \<le> 1 \<longrightarrow>
          (\<forall>pf pfi addresses blockAddress samePage srt. historyHelper pf = s \<longrightarrow>
             (\<exists>pf'. calculatePrefetch blockAddress samePage srt pf pfi addresses
                      = Some (pf', addresses))))"
proof -
  have iv: "inv s" using reach_inv [OF assms inv_ctor] .
  have hs: "historySize s = max 1 hs"
    using reach_config [OF assms inv_ctor] by (simp add: GHBHistory_ctor_def)
  have nz: "historySize s \<noteq> 0" using iv by (simp add: inv_def cfg_inv_def)
  have ne: "\<not> empty_ghb s" using nz by (simp add: empty_ghb_def)
  have c4: "\<forall>a slot s'. insert_ghb s a = Some (slot, s') \<longrightarrow>
          slot = head s \<and> 0 \<le> sint slot \<and> slot \<noteq> - 1"
  proof (intro allI impI)
    fix a slot s'
    assume i: "insert_ghb s a = Some (slot, s')"
    from insert_slot_nonneg [OF nz i] have a: "slot = head s" and b: "0 \<le> sint slot" by blast+
    from b have "slot \<noteq> - 1" by auto
    then show "slot = head s \<and> 0 \<le> sint slot \<and> slot \<noteq> - 1" using a b by simp
  qed
  have c5: "unat hs < 2 ^ 31 \<longrightarrow> (\<forall>a. insert_ghb s a = Some (head s, inserted s a))"
  proof (intro allI impI)
    fix a
    assume "unat hs < 2 ^ 31"
    then have "unat (historySize s) \<le> 2 ^ 31" unfolding hs by (rule max1_le)
    moreover have "cfg_inv s" using iv by (simp add: inv_def)
    ultimately have "slot_ok (history s) (head s)" by (intro head_ok)
    then show "insert_ghb s a = Some (head s, inserted s a)" by (rule insert_char [OF iv])
  qed
  have c6: "\<forall>t a slot t'. insert_ghb t a = Some (slot, t') \<longrightarrow> (slot = - 1 \<longleftrightarrow> historySize t = 0)"
    using insert_sentinel by blast
  have c7: "\<forall>t a. historySize t = 0 \<longrightarrow> empty_ghb t \<and> insert_ghb t a = Some (- 1, t)"
    by (simp add: empty_ghb_def insert_ghb_def)
  have c8: "\<forall>pf pfi addresses blockAddress samePage srt. historySize (historyHelper pf) = 0 \<longrightarrow>
          calculatePrefetch blockAddress samePage srt pf pfi addresses = Some (pf, addresses)"
    by (simp add: calculatePrefetch_def empty_ghb_def)
  have c9: "hs \<le> 1 \<longrightarrow>
          (\<forall>pf pfi addresses blockAddress samePage srt. historyHelper pf = s \<longrightarrow>
             (\<exists>pf'. calculatePrefetch blockAddress samePage srt pf pfi addresses
                      = Some (pf', addresses)))"
  proof (intro allI impI)
    fix pf :: GHBPrefetcher and pfi :: PrefetchInfo and addresses :: "(Addr \<times> int32) list"
      and blockAddress :: "Addr \<Rightarrow> Addr" and samePage :: "Addr \<Rightarrow> Addr \<Rightarrow> bool"
      and srt :: "(int64 \<times> uint32) list \<Rightarrow> (int64 \<times> uint32) list"
    assume le: "hs \<le> 1" and pf: "historyHelper pf = s"
    have one: "historySize (historyHelper pf) = 1" unfolding pf hs using le by (rule max1_one)
    have "inv (historyHelper pf)" using iv pf by simp
    from single_slot_no_candidates [OF this one]
    show "\<exists>pf'. calculatePrefetch blockAddress samePage srt pf pfi addresses = Some (pf', addresses)" .
  qed
  show ?thesis
    by (rule conjI [OF hs conjI [OF nz conjI [OF ne conjI [OF c4 conjI [OF c5 conjI [OF c6
          conjI [OF c7 conjI [OF c8 c9]]]]]]]])
qed

theorem zero_capacity_clamped_witness:
  "historySize (GHBHistory_ctor 0 4 2 True 64 50) = 1
   \<and> insert_ghb (GHBHistory_ctor 0 4 2 True 64 50) (ex_access 0)
        = Some (0, inserted (GHBHistory_ctor 0 4 2 True 64 50) (ex_access 0))
   \<and> insert_ghb ((GHBHistory_ctor 0 4 2 True 64 50)\<lparr> historySize := 0 \<rparr>) (ex_access 0)
        = Some (- 1, (GHBHistory_ctor 0 4 2 True 64 50)\<lparr> historySize := 0 \<rparr>)
   \<and> (\<exists>pf'. calculatePrefetch ex_blockAddress ex_samePage sort_desc
                (ex_pf\<lparr> historyHelper := GHBHistory_ctor 0 4 2 True 64 50 \<rparr>)
                \<lparr> pfi_addr = 0x85, pfi_pc = Some 0x100 \<rparr> [] = Some (pf', []))"
proof -
  let ?c = "GHBHistory_ctor 0 4 2 True 64 50"
  note t = zero_capacity_clamped [of 0 4 2 True 64 50 0 ?c, OF reach_start]
  have a: "historySize ?c = 1" using t by simp
  have h: "head ?c = 0" by (simp add: GHBHistory_ctor_def)
  have "unat (0 :: uint32) < 2 ^ 31" by simp
  then have b: "insert_ghb ?c (ex_access 0) = Some (0, inserted ?c (ex_access 0))"
    using t h by simp
  have c: "insert_ghb (?c\<lparr> historySize := 0 \<rparr>) (ex_access 0) = Some (- 1, ?c\<lparr> historySize := 0 \<rparr>)"
    using t by simp
  have "(0 :: uint32) \<le> 1" by simp
  then have d: "\<exists>pf'. calculatePrefetch ex_blockAddress ex_samePage sort_desc
                (ex_pf\<lparr> historyHelper := ?c \<rparr>)
                \<lparr> pfi_addr = 0x85, pfi_pc = Some 0x100 \<rparr> [] = Some (pf', [])"
    using t by simp
  show ?thesis using a b c d by simp
qed

text \<open>
  The specification says that a predictor constructed with capacity zero
  reports \<open>empty()\<close> and that its \<open>insert\<close> returns \<open>-1\<close>. Constructed with capacity 0, the
  predictor has capacity 1, \<open>empty()\<close> is false and \<open>insert\<close> returns slot 0.
\<close>

theorem zero_capacity_counterexample:
  "\<not> empty_ghb (GHBHistory_ctor 0 4 2 True 64 50)
   \<and> historySize (GHBHistory_ctor 0 4 2 True 64 50) = 1
   \<and> insert_ghb (GHBHistory_ctor 0 4 2 True 64 50) (ex_access 0)
        = Some (0, inserted (GHBHistory_ctor 0 4 2 True 64 50) (ex_access 0))
   \<and> (0 :: int32) \<noteq> - 1"
proof -
  let ?c = "GHBHistory_ctor 0 4 2 True 64 50"
  have f: "historySize ?c = 1" "head ?c = 0" "length (history ?c) = 1"
    by (simp_all add: GHBHistory_ctor_def)
  have ok: "slot_ok (history ?c) (head ?c)" by (simp add: slot_ok_def f)
  have "insert_ghb ?c (ex_access 0) = Some (head ?c, inserted ?c (ex_access 0))"
    using insert_char [OF inv_ctor ok] .
  then show ?thesis using f by (simp add: empty_ghb_def)
qed

section \<open>Insertion returns; the wrapping buffer\<close>

lemma insert_returns:
  assumes r: "reach (GHBHistory_ctor hs pl dg upc pb ct) n s" and sz: "unat hs < 2 ^ 31"
  shows "slot_ok (history s) (head s) \<and> insert_ghb s a = Some (head s, inserted s a)"
proof -
  have iv: "inv s" using reach_inv [OF r inv_ctor] .
  have "historySize s = max 1 hs"
    using reach_config [OF r inv_ctor] by (simp add: GHBHistory_ctor_def)
  then have "unat (historySize s) \<le> 2 ^ 31" using max1_le [OF sz] by simp
  moreover have "cfg_inv s" using iv by (simp add: inv_def)
  ultimately have ok: "slot_ok (history s) (head s)" by (intro head_ok)
  then show ?thesis using insert_char [OF iv ok] by simp
qed

lemma ex_w_inserted:
  "ex_w1 = inserted ex_small (ex_access 0)"
  "ex_w2 = inserted (inserted ex_small (ex_access 0)) (ex_access 0x40)"
  "ex_w3 = ex_stride ex_small"
proof -
  have sz: "unat (2 :: uint32) < 2 ^ 31" by simp
  have r0: "reach (GHBHistory_ctor 2 4 2 True 64 50) 0 ex_small"
    unfolding ex_small_def by (rule reach_start)
  have i0: "insert_ghb ex_small (ex_access 0) = Some (head ex_small, inserted ex_small (ex_access 0))"
    using insert_returns [OF r0 sz] by simp
  then show w1: "ex_w1 = inserted ex_small (ex_access 0)" by (simp add: ex_w1_def)
  have r1: "reach (GHBHistory_ctor 2 4 2 True 64 50) (Suc 0) ex_w1"
    unfolding w1 using reach_insert [OF r0 i0] .
  have i1: "insert_ghb ex_w1 (ex_access 0x40) = Some (head ex_w1, inserted ex_w1 (ex_access 0x40))"
    using insert_returns [OF r1 sz] by simp
  then show w2: "ex_w2 = inserted (inserted ex_small (ex_access 0)) (ex_access 0x40)"
    by (simp add: ex_w2_def w1)
  have r2: "reach (GHBHistory_ctor 2 4 2 True 64 50) (Suc (Suc 0)) ex_w2"
    using reach_insert [OF r1 i1] by (simp add: w2 w1)
  have i2: "insert_ghb ex_w2 (ex_access 0x80) = Some (head ex_w2, inserted ex_w2 (ex_access 0x80))"
    using insert_returns [OF r2 sz] by simp
  then show "ex_w3 = ex_stride ex_small" by (simp add: ex_w3_def w2 ex_stride_def)
qed

lemma ex_w2_reach: "reach (GHBHistory_ctor 2 4 2 True 64 50) 2 ex_w2"
proof -
  have sz: "unat (2 :: uint32) < 2 ^ 31" by simp
  have r0: "reach (GHBHistory_ctor 2 4 2 True 64 50) 0 ex_small"
    unfolding ex_small_def by (rule reach_start)
  have i0: "insert_ghb ex_small (ex_access 0) = Some (head ex_small, ex_w1)"
    using insert_returns [OF r0 sz] by (simp add: ex_w_inserted(1))
  have r1: "reach (GHBHistory_ctor 2 4 2 True 64 50) (Suc 0) ex_w1"
    using reach_insert [OF r0 i0] .
  have i1: "insert_ghb ex_w1 (ex_access 0x40) = Some (head ex_w1, ex_w2)"
    using insert_returns [OF r1 sz] by (simp add: ex_w_inserted)
  show ?thesis using reach_insert [OF r1 i1] by (simp add: eval_nat_numeral)
qed

lemma ex_w3_reach: "reach (GHBHistory_ctor 2 4 2 True 64 50) 3 ex_w3"
  using ex_small_reach by (simp add: ex_w_inserted(3))

lemma ex_w2_fields:
  "head ex_w2 = 0" "filled ex_w2" "pageBytes ex_w2 = 64" "usePC ex_w2"
  "lastIndex ex_w2 Page 0 = Some 0" "lastIndex ex_w2 Page 1 = Some 1" "lastIndex ex_w2 Page 2 = None"
  "lastIndex ex_w2 PC 0x100 = Some 1"
  "seq (history ex_w2 ! 0) = 1" "seq (history ex_w2 ! 1) = 2" "sequenceCounter ex_w2 = 3"
  "length (history ex_w2) = 2"
  by (simp_all add: ex_w_inserted(2) ex_small_fields ex_access_def inserted_def insertedLinks_def
      insertedIndex_def unmapSlot_def wiredLink_def)

lemma chain_slots_ok:
  assumes "link_inv s" "slot_ok (history s) index"
  shows "i \<le> length (chainDeltas s key m index) \<Longrightarrow> slot_ok (history s) (chainSlot s key index i)"
proof (induction i)
  case 0
  then show ?case using assms(2) by simp
next
  case (Suc i)
  then have lt: "i < length (chainDeltas s key m index)" by simp
  have ok: "slot_ok (history s) (chainSlot s key index i)" using Suc by simp
  have "linkFollowable s key (chainSlot s key index i)" using chainDeltas_nth [OF lt] by blast
  then have "0 \<le> sint (prev (links (history s ! unat (chainSlot s key index i)) key))"
    by (simp add: linkFollowable_def)
  from link_inv_prev_ok [OF assms(1) ok this] show ?case by simp
qed

lemma chainDeltas_stale:
  assumes "\<not> linkFollowable s key c"
  shows "chainDeltas s key m c = []"
  using assms by (cases m) simp_all

lemma ex_small_addrs:
  "addr (history (ex_stride ex_small) ! 0) = 0x80" "addr (history (ex_stride ex_small) ! 1) = 0x40"
  by (simp_all add: ex_small_fields ex_stride_def ex_access_def inserted_def insertedLinks_def insertedIndex_def
      unmapSlot_def wiredLink_def)

lemma ex_w3_chain:
  "chainDeltas ex_w3 PC (unat (patternLength ex_w3)) 0 = [0x40]"
  using ex_small_entries ex_small_addrs
  by (simp add: ex_w_inserted ex_stride_fields ex_small_fields chainDeltas_numeral linkFollowable_def)

subsection \<open>The correlation index across wraparound\<close>

text \<open>
  C2. In every reachable state the index of each correlation-key kind maps a
  key value to at most one slot (it is a map), and that slot is in range and
  its link of that kind is valid and holds that key value. With a capacity
  below \<open>2^31\<close> the write head is a slot of the buffer and \<open>insert\<close> returns
  it. An insertion maps the inserted key values to the new slot, drops the
  other mappings that pointed to the overwritten slot and keeps the rest.
  Evicting a slot of the buffer (\<open>evictIndex\<close>, \<open>removeIndexMappings\<close>)
  returns and removes exactly the mappings that point to that slot.
\<close>

theorem index_no_dangling:
  assumes "reach (GHBHistory_ctor hs pl dg upc pb ct) n s"
  shows "(\<forall>k v p. lastIndex s k v = Some p \<longrightarrow>
            slot_ok (history s) p
            \<and> keyValid (links (history s ! unat p) k)
            \<and> keyValue (links (history s ! unat p) k) = v)
         \<and> (\<forall>a slot s'. insert_ghb s a = Some (slot, s') \<longrightarrow>
              (\<forall>k v. lastIndex s' k v =
                 (if (k = Page \<and> v = acc_addr a div ucast (pageBytes s))
                      \<or> (k = PC \<and> usePC s \<and> acc_pc a = Some v)
                  then Some slot
                  else if lastIndex s k v = Some slot then None
                  else lastIndex s k v)))
         \<and> (unat hs < 2 ^ 31 \<longrightarrow>
              slot_ok (history s) (head s)
              \<and> (\<forall>a. \<exists>s'. insert_ghb s a = Some (head s, s')
                    \<and> (\<forall>k v. lastIndex s' k v =
                         (if (k = Page \<and> v = acc_addr a div ucast (pageBytes s))
                              \<or> (k = PC \<and> usePC s \<and> acc_pc a = Some v)
                          then Some (head s)
                          else if lastIndex s k v = Some (head s) then None
                          else lastIndex s k v))))
         \<and> (\<forall>slot. slot_ok (history s) slot \<longrightarrow>
              (\<exists>s1. removeIndexMappings s slot = Some s1
                 \<and> (\<forall>k v. lastIndex s1 k v =
                       (if lastIndex s k v = Some slot then None else lastIndex s k v))))
         \<and> (\<forall>slot. slot_ok (history s) slot \<longrightarrow>
              (\<exists>s1. evictIndex s slot = Some s1
                 \<and> (\<forall>k v. lastIndex s1 k v =
                       (if lastIndex s k v = Some slot then None else lastIndex s k v))))"
proof -
  have iv: "inv s" using reach_inv [OF assms inv_ctor] .
  then have ii: "index_inv s" by (simp add: inv_def)
  have a: "\<forall>k v p. lastIndex s k v = Some p \<longrightarrow>
            slot_ok (history s) p
            \<and> keyValid (links (history s ! unat p) k)
            \<and> keyValue (links (history s ! unat p) k) = v"
    using ii unfolding index_inv_def .
  have b0: "lastIndex s' k v =
                 (if (k = Page \<and> v = acc_addr a div ucast (pageBytes s))
                      \<or> (k = PC \<and> usePC s \<and> acc_pc a = Some v)
                  then Some slot
                  else if lastIndex s k v = Some slot then None
                  else lastIndex s k v)"
    if "insert_ghb s a = Some (slot, s')" for a slot s' k v
  proof -
    have s': "s' = inserted s a" and sl: "slot = head s"
      using insert_Some [OF iv that] by simp_all
    show ?thesis unfolding s' sl
      by (cases k) (auto simp add: insertedIndex_def unmapSlot_def)
  qed
  have b: "\<forall>a slot s'. insert_ghb s a = Some (slot, s') \<longrightarrow>
              (\<forall>k v. lastIndex s' k v =
                 (if (k = Page \<and> v = acc_addr a div ucast (pageBytes s))
                      \<or> (k = PC \<and> usePC s \<and> acc_pc a = Some v)
                  then Some slot
                  else if lastIndex s k v = Some slot then None
                  else lastIndex s k v))"
    using b0 by blast
  have t: "unat hs < 2 ^ 31 \<longrightarrow>
              slot_ok (history s) (head s)
              \<and> (\<forall>a. \<exists>s'. insert_ghb s a = Some (head s, s')
                    \<and> (\<forall>k v. lastIndex s' k v =
                         (if (k = Page \<and> v = acc_addr a div ucast (pageBytes s))
                              \<or> (k = PC \<and> usePC s \<and> acc_pc a = Some v)
                          then Some (head s)
                          else if lastIndex s k v = Some (head s) then None
                          else lastIndex s k v)))"
  proof (intro impI conjI allI)
    assume sz: "unat hs < 2 ^ 31"
    show "slot_ok (history s) (head s)" using insert_returns [OF assms sz] by simp
    fix a
    have i: "insert_ghb s a = Some (head s, inserted s a)"
      using insert_returns [OF assms sz] by simp
    show "\<exists>s'. insert_ghb s a = Some (head s, s')
                    \<and> (\<forall>k v. lastIndex s' k v =
                         (if (k = Page \<and> v = acc_addr a div ucast (pageBytes s))
                              \<or> (k = PC \<and> usePC s \<and> acc_pc a = Some v)
                          then Some (head s)
                          else if lastIndex s k v = Some (head s) then None
                          else lastIndex s k v))"
      using i b0 [OF i] by blast
  qed
  have c0: "\<exists>s1. removeIndexMappings s slot = Some s1
                 \<and> (\<forall>k v. lastIndex s1 k v =
                       (if lastIndex s k v = Some slot then None else lastIndex s k v))"
    if sok: "slot_ok (history s) slot" for slot
  proof -
    obtain v' where "removeIndexMappings s slot =
           Some (s\<lparr> history := (history s)[unat slot := v'], lastIndex := unmapSlot (lastIndex s) slot \<rparr>)"
      using evict_char [OF ii sok] by blast
    then show ?thesis by (simp add: unmapSlot_def)
  qed
  have c: "\<forall>slot. slot_ok (history s) slot \<longrightarrow>
              (\<exists>s1. removeIndexMappings s slot = Some s1
                 \<and> (\<forall>k v. lastIndex s1 k v =
                       (if lastIndex s k v = Some slot then None else lastIndex s k v)))"
    using c0 by blast
  have d: "\<forall>slot. slot_ok (history s) slot \<longrightarrow>
              (\<exists>s1. evictIndex s slot = Some s1
                 \<and> (\<forall>k v. lastIndex s1 k v =
                       (if lastIndex s k v = Some slot then None else lastIndex s k v)))"
    unfolding evictIndex_def using c0 by blast
  show ?thesis by (rule conjI [OF a conjI [OF b conjI [OF t conjI [OF c d]]]])
qed

theorem index_no_dangling_witness:
  "insert_ghb ex_w2 (ex_access 0x80) = Some (0, ex_w3)
   \<and> filled ex_w2
   \<and> lastIndex ex_w2 Page 0 = Some 0
   \<and> lastIndex ex_w2 PC 0x100 = Some 1
   \<and> lastIndex ex_w3 Page 0 = None
   \<and> lastIndex ex_w3 Page 1 = Some 1
   \<and> lastIndex ex_w3 Page 2 = Some 0
   \<and> lastIndex ex_w3 PC 0x100 = Some 0
   \<and> keyValid (links (history ex_w3 ! unat (0 :: int32)) PC)
   \<and> keyValue (links (history ex_w3 ! unat (0 :: int32)) PC) = 0x100
   \<and> (\<exists>s1. evictIndex ex_w2 0 = Some s1
         \<and> lastIndex s1 Page 0 = None \<and> lastIndex s1 PC 0x100 = Some 1)"
proof -
  have sz: "unat (2 :: uint32) < 2 ^ 31" by simp
  note t2 = index_no_dangling [OF ex_w2_reach]
  note t3 = index_no_dangling [OF ex_w3_reach]
  note tot = t2 [THEN conjunct2, THEN conjunct2, THEN conjunct1, rule_format, OF sz, THEN conjunct2, rule_format]
  obtain s' where i: "insert_ghb ex_w2 (ex_access 0x80) = Some (head ex_w2, s')"
    and idx0: "\<forall>k v. lastIndex s' k v =
      (if (k = Page \<and> v = acc_addr (ex_access 0x80) div ucast (pageBytes ex_w2))
            \<or> (k = PC \<and> usePC ex_w2 \<and> acc_pc (ex_access 0x80) = Some v)
       then Some (head ex_w2)
       else if lastIndex ex_w2 k v = Some (head ex_w2) then None
       else lastIndex ex_w2 k v)"
    using tot [of "ex_access 0x80"] by blast
  have s': "ex_w3 = s'" unfolding ex_w3_def i by simp
  have ins: "insert_ghb ex_w2 (ex_access 0x80) = Some (0, ex_w3)"
    unfolding s' i by (simp add: ex_w2_fields)
  have idx: "lastIndex ex_w3 k v =
      (if (k = Page \<and> v = acc_addr (ex_access 0x80) div ucast (pageBytes ex_w2))
            \<or> (k = PC \<and> usePC ex_w2 \<and> acc_pc (ex_access 0x80) = Some v)
       then Some (head ex_w2)
       else if lastIndex ex_w2 k v = Some (head ex_w2) then None
       else lastIndex ex_w2 k v)" for k v
    unfolding s' using idx0 by blast
  have m: "lastIndex ex_w3 Page 0 = None" "lastIndex ex_w3 Page 1 = Some 1"
    "lastIndex ex_w3 Page 2 = Some 0" "lastIndex ex_w3 PC 0x100 = Some 0"
    by (simp_all add: idx ex_w2_fields ex_access_def)
  have v: "keyValid (links (history ex_w3 ! unat (0 :: int32)) PC)
      \<and> keyValue (links (history ex_w3 ! unat (0 :: int32)) PC) = 0x100"
    using t3 [THEN conjunct1, rule_format, OF m(4)] by blast
  have ok: "slot_ok (history ex_w2) 0" by (simp add: slot_ok_def ex_w2_fields)
  obtain s1 where e: "evictIndex ex_w2 0 = Some s1"
    "\<forall>k v. lastIndex s1 k v = (if lastIndex ex_w2 k v = Some 0 then None else lastIndex ex_w2 k v)"
    using t2 [THEN conjunct2, THEN conjunct2, THEN conjunct2, THEN conjunct2, rule_format, OF ok] by blast
  have ev: "\<exists>s1. evictIndex ex_w2 0 = Some s1
         \<and> lastIndex s1 Page 0 = None \<and> lastIndex s1 PC 0x100 = Some 1"
    using e by (simp add: ex_w2_fields)
  have f: "filled ex_w2" "lastIndex ex_w2 Page 0 = Some 0" "lastIndex ex_w2 PC 0x100 = Some 1"
    by (simp_all add: ex_w2_fields)
  show ?thesis
    by (rule conjI [OF ins conjI [OF f(1) conjI [OF f(2) conjI [OF f(3) conjI [OF m(1) conjI [OF m(2)
         conjI [OF m(3) conjI [OF m(4) conjI [OF v [THEN conjunct1] conjI [OF v [THEN conjunct2] ev]]]]]]]]]])
qed

subsection \<open>Sequence numbers and the links buildPattern follows\<close>

text \<open>
  C6. While fewer than \<open>2^64 - 1\<close> entries have been inserted since
  construction or the last reset (the sequence counter is a 64-bit unsigned
  integer), the counter is one more than that number of insertions. With a
  capacity below \<open>2^31\<close>, \<open>insert\<close> returns: it gives the new entry the
  counter's value, which is greater than the sequence number of every entry in
  the buffer, and increments the counter; only \<open>reset\<close> sets the counter back
  to 1. Hence two distinct slots never hold the same non-zero sequence number;
  a link with a predecessor records a sequence number older than that of its
  own entry, and its target slot either still holds the recorded number or
  has been overwritten by a newer entry than the link's own. \<open>buildPattern\<close>
  on a slot of the buffer returns, and every link it follows leads to a slot
  that still holds the sequence number recorded in the link, an older entry
  than the link's own; a link whose target is newer than its own entry ends
  the walk, and when it is the link of the start slot the result is failure
  with no deltas.
\<close>

theorem sequence_numbers_increasing:
  assumes "reach (GHBHistory_ctor hs pl dg upc pb ct) n s" and "n + 1 < 2 ^ 64"
  shows "unat (sequenceCounter s) = n + 1
    \<and> (\<forall>a slot s'. insert_ghb s a = Some (slot, s') \<longrightarrow>
          seq (history s' ! unat slot) = sequenceCounter s
          \<and> sequenceCounter s' = sequenceCounter s + 1
          \<and> (\<forall>i. i < length (history s) \<longrightarrow> seq (history s ! i) < seq (history s' ! unat slot)))
    \<and> sequenceCounter (reset s) = 1
    \<and> (\<forall>ch. sequenceCounter (updatePatternTable s ch) = sequenceCounter s)
    \<and> (\<forall>i j. i < length (history s) \<and> j < length (history s) \<and> i \<noteq> j
            \<and> seq (history s ! i) \<noteq> 0 \<longrightarrow> seq (history s ! i) \<noteq> seq (history s ! j))
    \<and> (\<forall>c k. slot_ok (history s) c \<and> 0 \<le> sint (prev (links (history s ! unat c) k)) \<longrightarrow>
          prevSeq (links (history s ! unat c) k) < seq (history s ! unat c)
          \<and> (seq (history s ! unat (prev (links (history s ! unat c) k)))
                = prevSeq (links (history s ! unat c) k)
              \<or> seq (history s ! unat c) < seq (history s ! unat (prev (links (history s ! unat c) k)))))
    \<and> (\<forall>c k. slot_ok (history s) c
            \<and> seq (history s ! unat c) < seq (history s ! unat (prev (links (history s ! unat c) k)))
          \<longrightarrow> \<not> linkFollowable s k c)
    \<and> (unat hs < 2 ^ 31 \<longrightarrow>
          (\<forall>a. \<exists>s'. insert_ghb s a = Some (head s, s')
               \<and> seq (history s' ! unat (head s)) = sequenceCounter s
               \<and> sequenceCounter s' = sequenceCounter s + 1
               \<and> (\<forall>i. i < length (history s) \<longrightarrow>
                      seq (history s ! i) < seq (history s' ! unat (head s)))))
    \<and> (\<forall>index key. slot_ok (history s) index \<longrightarrow>
          (\<exists>deltas. buildPattern s index key = Some (deltas \<noteq> [], deltas)
             \<and> (\<forall>i. i < length deltas \<longrightarrow>
                   0 \<le> sint (prev (links (history s ! unat (chainSlot s key index i)) key))
                   \<and> seq (history s ! unat (prev (links (history s ! unat (chainSlot s key index i)) key)))
                        = prevSeq (links (history s ! unat (chainSlot s key index i)) key)
                   \<and> seq (history s ! unat (prev (links (history s ! unat (chainSlot s key index i)) key)))
                        < seq (history s ! unat (chainSlot s key index i)))
             \<and> (\<forall>i. seq (history s ! unat (chainSlot s key index i))
                        < seq (history s ! unat (prev (links (history s ! unat (chainSlot s key index i)) key)))
                   \<longrightarrow> length deltas \<le> i)))
    \<and> (\<forall>index key. slot_ok (history s) index
            \<and> seq (history s ! unat index)
                < seq (history s ! unat (prev (links (history s ! unat index) key)))
          \<longrightarrow> buildPattern s index key = Some (False, []))"
proof -
  have iv: "inv s" using reach_inv [OF assms(1) inv_ctor] .
  have sq: "seq_inv n s" using reach_seq_inv [OF assms(1) inv_ctor seq_inv_ctor assms(2)] .
  have cnt: "unat (sequenceCounter s) = n + 1"
    and le: "\<And>i. i < length (history s) \<Longrightarrow> unat (seq (history s ! i)) \<le> n"
    and dist: "\<forall>i j. i < length (history s) \<and> j < length (history s) \<and> i \<noteq> j
            \<and> seq (history s ! i) \<noteq> 0 \<longrightarrow> seq (history s ! i) \<noteq> seq (history s ! j)"
    and lk: "\<And>c k. c < length (history s) \<Longrightarrow> 0 \<le> sint (prev (links (history s ! c) k)) \<Longrightarrow>
            prevSeq (links (history s ! c) k) < seq (history s ! c)
            \<and> (seq (history s ! unat (prev (links (history s ! c) k)))
                  = prevSeq (links (history s ! c) k)
                \<or> seq (history s ! c) < seq (history s ! unat (prev (links (history s ! c) k))))"
    using sq unfolding seq_inv_def by blast+
  have ins: "seq (history s' ! unat slot) = sequenceCounter s
          \<and> sequenceCounter s' = sequenceCounter s + 1
          \<and> (\<forall>i. i < length (history s) \<longrightarrow> seq (history s ! i) < seq (history s' ! unat slot))"
    if i: "insert_ghb s a = Some (slot, s')" for a slot s'
  proof -
    have ok: "slot_ok (history s) (head s)" and sl: "slot = head s" and s': "s' = inserted s a"
      using insert_Some [OF iv i] by simp_all
    have lt: "unat (head s) < length (history s)" using ok by (simp add: slot_ok_def)
    have new: "seq (history s' ! unat slot) = sequenceCounter s"
      unfolding s' sl using lt by (simp add: inserted_nth_head)
    have "seq (history s ! i) < sequenceCounter s" if "i < length (history s)" for i
      using le [OF that] cnt by (simp add: word_less_nat_alt)
    then show ?thesis using new by (simp add: s')
  qed
  have lk': "prevSeq (links (history s ! unat c) k) < seq (history s ! unat c)
          \<and> (seq (history s ! unat (prev (links (history s ! unat c) k)))
                = prevSeq (links (history s ! unat c) k)
              \<or> seq (history s ! unat c) < seq (history s ! unat (prev (links (history s ! unat c) k))))"
    if "slot_ok (history s) c" "0 \<le> sint (prev (links (history s ! unat c) k))" for c k
    using lk [of "unat c" k] that by (simp add: slot_ok_def)
  have stale: "\<not> linkFollowable s k c"
    if "slot_ok (history s) c"
      "seq (history s ! unat c) < seq (history s ! unat (prev (links (history s ! unat c) k)))" for c k
  proof
    assume f: "linkFollowable s k c"
    then have p: "0 \<le> sint (prev (links (history s ! unat c) k))"
      and e: "seq (history s ! unat (prev (links (history s ! unat c) k)))
                = prevSeq (links (history s ! unat c) k)"
      by (simp_all add: linkFollowable_def)
    from lk' [OF that(1) p] e that(2) show False by simp
  qed
  have c2: "\<forall>a slot s'. insert_ghb s a = Some (slot, s') \<longrightarrow>
          seq (history s' ! unat slot) = sequenceCounter s
          \<and> sequenceCounter s' = sequenceCounter s + 1
          \<and> (\<forall>i. i < length (history s) \<longrightarrow> seq (history s ! i) < seq (history s' ! unat slot))"
    using ins by blast
  have c3: "sequenceCounter (reset s) = 1" by (simp add: reset_eq)
  have c4: "\<forall>ch. sequenceCounter (updatePatternTable s ch) = sequenceCounter s" by simp
  have c6: "\<forall>c k. slot_ok (history s) c \<and> 0 \<le> sint (prev (links (history s ! unat c) k)) \<longrightarrow>
          prevSeq (links (history s ! unat c) k) < seq (history s ! unat c)
          \<and> (seq (history s ! unat (prev (links (history s ! unat c) k)))
                = prevSeq (links (history s ! unat c) k)
              \<or> seq (history s ! unat c) < seq (history s ! unat (prev (links (history s ! unat c) k))))"
    using lk' by blast
  have c7: "\<forall>c k. slot_ok (history s) c
            \<and> seq (history s ! unat c) < seq (history s ! unat (prev (links (history s ! unat c) k)))
          \<longrightarrow> \<not> linkFollowable s k c"
    using stale by blast
  have li: "link_inv s" using iv by (simp add: inv_def)
  have c8: "unat hs < 2 ^ 31 \<longrightarrow>
          (\<forall>a. \<exists>s'. insert_ghb s a = Some (head s, s')
               \<and> seq (history s' ! unat (head s)) = sequenceCounter s
               \<and> sequenceCounter s' = sequenceCounter s + 1
               \<and> (\<forall>i. i < length (history s) \<longrightarrow>
                      seq (history s ! i) < seq (history s' ! unat (head s))))"
  proof (intro impI allI)
    fix a
    assume sz: "unat hs < 2 ^ 31"
    have i: "insert_ghb s a = Some (head s, inserted s a)"
      using insert_returns [OF assms(1) sz] by simp
    show "\<exists>s'. insert_ghb s a = Some (head s, s')
               \<and> seq (history s' ! unat (head s)) = sequenceCounter s
               \<and> sequenceCounter s' = sequenceCounter s + 1
               \<and> (\<forall>i. i < length (history s) \<longrightarrow>
                      seq (history s ! i) < seq (history s' ! unat (head s)))"
      using i ins [OF i] by blast
  qed
  have walk: "\<exists>deltas. buildPattern s index key = Some (deltas \<noteq> [], deltas)
             \<and> (\<forall>i. i < length deltas \<longrightarrow>
                   0 \<le> sint (prev (links (history s ! unat (chainSlot s key index i)) key))
                   \<and> seq (history s ! unat (prev (links (history s ! unat (chainSlot s key index i)) key)))
                        = prevSeq (links (history s ! unat (chainSlot s key index i)) key)
                   \<and> seq (history s ! unat (prev (links (history s ! unat (chainSlot s key index i)) key)))
                        < seq (history s ! unat (chainSlot s key index i)))
             \<and> (\<forall>i. seq (history s ! unat (chainSlot s key index i))
                        < seq (history s ! unat (prev (links (history s ! unat (chainSlot s key index i)) key)))
                   \<longrightarrow> length deltas \<le> i)"
    if ok: "slot_ok (history s) index" for index key
  proof -
    let ?ds = "chainDeltas s key (unat (patternLength s)) index"
    have bp: "buildPattern s index key = Some (?ds \<noteq> [], ?ds)"
      using buildPattern_Some [OF li ok] .
    have fol: "0 \<le> sint (prev (links (history s ! unat (chainSlot s key index i)) key))
                   \<and> seq (history s ! unat (prev (links (history s ! unat (chainSlot s key index i)) key)))
                        = prevSeq (links (history s ! unat (chainSlot s key index i)) key)
                   \<and> seq (history s ! unat (prev (links (history s ! unat (chainSlot s key index i)) key)))
                        < seq (history s ! unat (chainSlot s key index i))"
      if lt: "i < length ?ds" for i
    proof -
      have cok: "slot_ok (history s) (chainSlot s key index i)"
        using chain_slots_ok [OF li ok, of i key "unat (patternLength s)"] lt by simp
      have f: "linkFollowable s key (chainSlot s key index i)"
        using chainDeltas_nth [OF lt] by blast
      then have p: "0 \<le> sint (prev (links (history s ! unat (chainSlot s key index i)) key))"
        and e: "seq (history s ! unat (prev (links (history s ! unat (chainSlot s key index i)) key)))
                  = prevSeq (links (history s ! unat (chainSlot s key index i)) key)"
        by (simp_all add: linkFollowable_def)
      have "prevSeq (links (history s ! unat (chainSlot s key index i)) key)
              < seq (history s ! unat (chainSlot s key index i))"
        using lk' [OF cok p] by blast
      then show ?thesis using p e by simp
    qed
    have stop: "length ?ds \<le> i"
      if st: "seq (history s ! unat (chainSlot s key index i))
                < seq (history s ! unat (prev (links (history s ! unat (chainSlot s key index i)) key)))"
      for i
    proof (rule ccontr)
      assume "\<not> length ?ds \<le> i"
      then have "i < length ?ds" by simp
      then have "seq (history s ! unat (prev (links (history s ! unat (chainSlot s key index i)) key)))
                        < seq (history s ! unat (chainSlot s key index i))"
        using fol by blast
      then show False using st by (simp add: word_less_nat_alt)
    qed
    show ?thesis using bp fol stop by blast
  qed
  have c9: "\<forall>index key. slot_ok (history s) index \<longrightarrow>
          (\<exists>deltas. buildPattern s index key = Some (deltas \<noteq> [], deltas)
             \<and> (\<forall>i. i < length deltas \<longrightarrow>
                   0 \<le> sint (prev (links (history s ! unat (chainSlot s key index i)) key))
                   \<and> seq (history s ! unat (prev (links (history s ! unat (chainSlot s key index i)) key)))
                        = prevSeq (links (history s ! unat (chainSlot s key index i)) key)
                   \<and> seq (history s ! unat (prev (links (history s ! unat (chainSlot s key index i)) key)))
                        < seq (history s ! unat (chainSlot s key index i)))
             \<and> (\<forall>i. seq (history s ! unat (chainSlot s key index i))
                        < seq (history s ! unat (prev (links (history s ! unat (chainSlot s key index i)) key)))
                   \<longrightarrow> length deltas \<le> i))"
    using walk by blast
  have first: "buildPattern s index key = Some (False, [])"
    if ok: "slot_ok (history s) index"
      and st: "seq (history s ! unat index)
                < seq (history s ! unat (prev (links (history s ! unat index) key)))"
    for index key
  proof -
    have "chainDeltas s key (unat (patternLength s)) index = []"
      using chainDeltas_stale [OF stale [OF ok st]] .
    then show ?thesis using buildPattern_Some [OF li ok, of key] by simp
  qed
  have c10: "\<forall>index key. slot_ok (history s) index
            \<and> seq (history s ! unat index)
                < seq (history s ! unat (prev (links (history s ! unat index) key)))
          \<longrightarrow> buildPattern s index key = Some (False, [])"
    using first by blast
  show ?thesis
    by (rule conjI [OF cnt conjI [OF c2 conjI [OF c3 conjI [OF c4 conjI [OF dist conjI [OF c6
          conjI [OF c7 conjI [OF c8 conjI [OF c9 c10]]]]]]]]])
qed

theorem sequence_numbers_increasing_witness:
  "unat (sequenceCounter ex_w3) = 4
   \<and> insert_ghb ex_w2 (ex_access 0x80) = Some (0, ex_w3)
   \<and> seq (history ex_w2 ! 0) = 1
   \<and> seq (history ex_w2 ! 1) = 2
   \<and> seq (history ex_w3 ! 0) = 3
   \<and> seq (history ex_w3 ! 1) = 2
   \<and> prev (links (history ex_w3 ! 1) PC) = 0
   \<and> prevSeq (links (history ex_w3 ! 1) PC) = 1
   \<and> buildPattern ex_w3 1 PC = Some (False, [])
   \<and> buildPattern ex_w3 0 PC = Some (True, [0x40])"
proof -
  have b2: "(2 :: nat) + 1 < 2 ^ 64" and b3: "(3 :: nat) + 1 < 2 ^ 64" by simp_all
  have sz: "unat (2 :: uint32) < 2 ^ 31" by simp
  note t2 = sequence_numbers_increasing [OF ex_w2_reach b2]
  note t3 = sequence_numbers_increasing [OF ex_w3_reach b3]
  note tot = t2 [THEN conjunct2, THEN conjunct2, THEN conjunct2, THEN conjunct2, THEN conjunct2,
      THEN conjunct2, THEN conjunct2, THEN conjunct1, rule_format, OF sz]
  note walk = t3 [THEN conjunct2, THEN conjunct2, THEN conjunct2, THEN conjunct2, THEN conjunct2,
      THEN conjunct2, THEN conjunct2, THEN conjunct2, THEN conjunct1, rule_format]
  note stale = t3 [THEN conjunct2, THEN conjunct2, THEN conjunct2, THEN conjunct2, THEN conjunct2,
      THEN conjunct2, THEN conjunct2, THEN conjunct2, THEN conjunct2, rule_format]
  have cnt: "unat (sequenceCounter ex_w3) = 4" using t3 [THEN conjunct1] by simp
  obtain s' where i: "insert_ghb ex_w2 (ex_access 0x80) = Some (head ex_w2, s')"
    and sq: "seq (history s' ! unat (head ex_w2)) = sequenceCounter ex_w2"
    using tot [of "ex_access 0x80"] by blast
  have s': "ex_w3 = s'" unfolding ex_w3_def i by simp
  have ins: "insert_ghb ex_w2 (ex_access 0x80) = Some (0, ex_w3)"
    unfolding s' i by (simp add: ex_w2_fields)
  have new: "seq (history ex_w3 ! 0) = 3"
    using sq unfolding s' by (simp add: ex_w2_fields)
  have old: "seq (history ex_w2 ! 0) = 1" "seq (history ex_w2 ! 1) = 2"
    using ex_w2_fields by simp_all
  have e: "seq (history ex_w3 ! 1) = 2" "prev (links (history ex_w3 ! 1) PC) = 0"
    "prevSeq (links (history ex_w3 ! 1) PC) = 1"
    using ex_small_entries by (simp_all add: ex_w_inserted)
  have len: "length (history ex_w3) = 2"
    by (simp add: ex_w_inserted ex_stride_fields ex_small_fields)
  have ok1: "slot_ok (history ex_w3) 1" and ok0: "slot_ok (history ex_w3) 0"
    by (simp_all add: slot_ok_def len)
  have st: "seq (history ex_w3 ! unat (1 :: int32))
              < seq (history ex_w3 ! unat (prev (links (history ex_w3 ! unat (1 :: int32)) PC)))"
    using e new by simp
  have b1: "buildPattern ex_w3 1 PC = Some (False, [])"
    using stale [of 1 PC] ok1 st by blast
  obtain deltas where d: "buildPattern ex_w3 0 PC = Some (deltas \<noteq> [], deltas)"
    using walk [OF ok0, of PC] by blast
  have li: "link_inv ex_w3" using reach_inv [OF ex_w3_reach inv_ctor] by (simp add: inv_def)
  have "buildPattern ex_w3 0 PC = Some ([0x40 :: int64] \<noteq> [], [0x40])"
    using buildPattern_Some [OF li ok0, of PC] by (simp only: ex_w3_chain)
  then have b0: "buildPattern ex_w3 0 PC = Some (True, [0x40])" by simp
  show ?thesis
    by (rule conjI [OF cnt conjI [OF ins conjI [OF old(1) conjI [OF old(2) conjI [OF new
          conjI [OF e(1) conjI [OF e(2) conjI [OF e(3) conjI [OF b1 b0]]]]]]]]])
qed

end
